theory Spec2Isabelle
  imports Main "HOL-Library.Char_ord"
begin

section \<open>Characters and strings\<close>

text \<open>
  A JavaScript string is modelled as a HOL \<open>string\<close>. The scanner of \<^verbatim>\<open>mini-sh.js\<close> compares
  characters only with ASCII characters, so every other code unit behaves like an ordinary
  word character. The quotes, the backslash and the control characters, which cannot be
  written inside a HOL string literal, get names.
\<close>

abbreviation SQ :: char where "SQ \<equiv> CHR 0x27"   \<comment> \<open>the single quote\<close>
abbreviation DQ :: char where "DQ \<equiv> CHR 0x22"   \<comment> \<open>the double quote\<close>
abbreviation BSL :: char where "BSL \<equiv> CHR 0x5C"  \<comment> \<open>the backslash\<close>
abbreviation TAB :: char where "TAB \<equiv> CHR 0x09"
abbreviation LF :: char where "LF \<equiv> CHR 0x0A"
abbreviation CR :: char where "CR \<equiv> CHR 0x0D"

definition isSpace :: "char \<Rightarrow> bool" where
  "isSpace ch \<longleftrightarrow> ch = CHR '' '' \<or> ch = TAB \<or> ch = LF \<or> ch = CR"

definition isDigit :: "char \<Rightarrow> bool" where
  "isDigit ch \<longleftrightarrow> CHR ''0'' \<le> ch \<and> ch \<le> CHR ''9''"

definition isVarStart :: "char \<Rightarrow> bool" where
  "isVarStart ch \<longleftrightarrow>
     (CHR ''A'' \<le> ch \<and> ch \<le> CHR ''Z'') \<or> (CHR ''a'' \<le> ch \<and> ch \<le> CHR ''z'') \<or> ch = CHR ''_''"

definition isVarChar :: "char \<Rightarrow> bool" where
  "isVarChar ch \<longleftrightarrow> isVarStart ch \<or> isDigit ch"

text \<open>
  \<^verbatim>\<open>peek(n)\<close> is \<^verbatim>\<open>input[i + n]\<close>, which is \<^verbatim>\<open>undefined\<close> past the end. The cursor \<open>i\<close>
  of the source is carried together with the unread rest \<open>drop i input\<close>, so \<open>peek\<close> reads the rest.
\<close>

definition peek :: "string \<Rightarrow> nat \<Rightarrow> char option" where
  "peek rest n = (if n < length rest then Some (rest ! n) else None)"

text \<open>
  \<^verbatim>\<open>Number(s)\<close> on a run of decimal digits (the empty run gives 0). The value is exact here;
  JavaScript rounds a run of more than fifteen digits to the nearest double.
\<close>

definition digitVal :: "char \<Rightarrow> nat" where
  "digitVal c = of_char c - 48"

definition Number :: "string \<Rightarrow> nat" where
  "Number s = foldl (\<lambda>n c. 10 * n + digitVal c) 0 s"

section \<open>Tokens\<close>

datatype TokenKind = Word | Pipe | GT | GTGT | LT | AMP_GT | FD_GT | EOF

text \<open>
  The \<^verbatim>\<open>meta\<close> object of an \<open>FD_GT\<close> token is either \<^verbatim>\<open>{fd, append}\<close> or
  \<^verbatim>\<open>{fd, dup: true, dupTarget}\<close>, where \<^verbatim>\<open>dupTarget\<close> is \<^verbatim>\<open>null\<close> when no digit follows \<^verbatim>\<open>&\<close>.
\<close>

datatype Meta = MetaAppend nat bool | MetaDup nat "nat option"

text \<open>
  The fields \<^verbatim>\<open>text\<close> and \<^verbatim>\<open>end\<close> of a token are \<open>text'\<close> and \<open>end'\<close> here, and the field
  \<^verbatim>\<open>value\<close> of a text part is \<open>value'\<close>: the plain names are keywords of Isabelle.
\<close>

record Token =
  kind :: TokenKind
  text' :: string
  start :: nat
  end' :: nat
  meta :: "Meta option"

text \<open>
  \<^verbatim>\<open>pushToken(kind, start, end, meta)\<close> appends a token whose text is
  \<^verbatim>\<open>input.slice(start, end)\<close>. Every call of the source has \<open>start\<close> at the cursor position at
  which the scan of the token began; \<open>rest\<close> is the input from \<open>start\<close> on, so the slice is
  \<open>take (end - start) rest\<close> (a slice is cut at the end of the input).
\<close>

definition pushToken :: "Token list \<Rightarrow> string \<Rightarrow> TokenKind \<Rightarrow> nat \<Rightarrow> nat \<Rightarrow> Meta option \<Rightarrow> Token list" where
  "pushToken tokens rest k s e m =
     tokens @ [\<lparr>kind = k, text' = take (e - s) rest, start = s, end' = e, meta = m\<rparr>]"

section \<open>The lexer\<close>

text \<open>
  The inner loop of the word scan that consumes a quoted region: \<open>q\<close> is the opening quote,
  already consumed. Inside double quotes a backslash consumes the next character as well
  (\<^verbatim>\<open>i += 2\<close>, which may step past the end of the input).
\<close>

fun scan_quoted :: "char \<Rightarrow> nat \<Rightarrow> string \<Rightarrow> nat \<times> string" where
  "scan_quoted q i [] = (i, [])"
| "scan_quoted q i (cc # cs) =
     (if cc = BSL \<and> q = DQ then
        (case cs of [] \<Rightarrow> (i + 2, []) | c2 # cs' \<Rightarrow> scan_quoted q (i + 2) cs')
      else if cc = q then (i + 1, cs)
      else scan_quoted q (i + 1) cs)"

lemma scan_quoted_length: "length (snd (scan_quoted q i cs)) \<le> length cs"
proof (induction q i cs rule: scan_quoted.induct)
  case (1 q i)
  show ?case by simp
next
  case (2 q i cc cs)
  show ?case
  proof (cases "cc = BSL \<and> q = DQ")
    case True
    show ?thesis
    proof (cases cs)
      case Nil
      with True show ?thesis by simp
    next
      case (Cons c2 cs')
      with 2(1) True have "length (snd (scan_quoted q (i + 2) cs')) \<le> length cs'" by blast
      with True Cons show ?thesis by simp
    qed
  next
    case False
    show ?thesis
    proof (cases "cc = q")
      case True
      with False show ?thesis by auto
    next
      case nq: False
      with 2(2) False have "length (snd (scan_quoted q (i + 1) cs)) \<le> length cs" by blast
      with False nq show ?thesis by auto
    qed
  qed
qed

text \<open>The loop \<^verbatim>\<open>while (!eof() && inWord)\<close> that finds the end of a word.\<close>

function scan_word :: "nat \<Rightarrow> string \<Rightarrow> nat \<times> string" where
  "scan_word i [] = (i, [])"
| "scan_word i (c # cs) =
     (if isSpace c then (i, c # cs)
      else if c = CHR ''|'' \<or> c = CHR ''<'' \<or> c = CHR ''>'' then (i, c # cs)
      else if c = CHR ''&'' \<and> peek (c # cs) 1 = Some (CHR ''>'') then (i, c # cs)
      else if c = SQ \<or> c = DQ then
        (case scan_quoted c (i + 1) cs of (i', rest') \<Rightarrow> scan_word i' rest')
      else if c = BSL then scan_word (i + 2) (drop 1 cs)
      else scan_word (i + 1) cs)"
  by pat_completeness auto
termination
proof (relation "measure (\<lambda>(i, s). length s)")
  fix i c cs x xa y
  assume "(xa, y) = scan_quoted c (i + 1) cs"
  then have "y = snd (scan_quoted c (i + 1) cs)"
    by (metis snd_conv)
  then have "length y \<le> length cs"
    by (simp add: scan_quoted_length)
  then show "((xa, y), i, c # cs) \<in> measure (\<lambda>(i, s). length s)"
    by simp
qed auto

lemma scan_word_length: "length (snd (scan_word i s)) \<le> length s"
proof (induction i s rule: scan_word.induct)
  case (1 i)
  show ?case by simp
next
  case (2 i c cs)
  show ?case
  proof (cases "isSpace c \<or> c = CHR ''|'' \<or> c = CHR ''<'' \<or> c = CHR ''>''
      \<or> (c = CHR ''&'' \<and> peek (c # cs) 1 = Some (CHR ''>''))")
    case True
    then show ?thesis by auto
  next
    case brk: False
    show ?thesis
    proof (cases "c = SQ \<or> c = DQ")
      case True
      obtain i' rest' where sq: "scan_quoted c (i + 1) cs = (i', rest')"
        by (cases "scan_quoted c (i + 1) cs")
      have "length (snd (scan_quoted c (i + 1) cs)) \<le> length cs"
        by (rule scan_quoted_length)
      with sq have l: "length rest' \<le> length cs" by simp
      have "length (snd (scan_word i' rest')) \<le> length rest'"
        using 2(1) brk True sq by auto
      with l have "length (snd (scan_word i' rest')) \<le> Suc (length cs)" by linarith
      with brk True sq show ?thesis by auto
    next
      case nq: False
      show ?thesis
      proof (cases "c = BSL")
        case True
        have "length (snd (scan_word (i + 2) (drop 1 cs))) \<le> length (drop 1 cs)"
          using 2(2) brk nq True by blast
        then have "length (snd (scan_word (i + 2) (drop 1 cs))) \<le> Suc (length cs)" by simp
        with brk nq True show ?thesis by auto
      next
        case False
        have "length (snd (scan_word (i + 1) cs)) \<le> length cs"
          using 2(3) brk nq False by blast
        with brk nq False show ?thesis by auto
      qed
    qed
  qed
qed

text \<open>
  The branch \<^verbatim>\<open>if (isDigit(ch))\<close> of the main loop, entered with the cursor at \<open>startFd\<close>
  and \<open>rest\<close> the input from there on. It reads the digits and returns the cursor after the
  operator together with the token's \<^verbatim>\<open>meta\<close>, or \<open>None\<close> when the digits are not followed by
  \<^verbatim>\<open>>\<close> (the source then resets \<^verbatim>\<open>i = startFd\<close> and falls through to the word scan).
\<close>

definition lex_fd :: "nat \<Rightarrow> string \<Rightarrow> (nat \<times> string \<times> Meta) option" where
  "lex_fd startFd rest =
     (let fdStr = takeWhile isDigit rest;
          i = startFd + length fdStr;
          r = dropWhile isDigit rest
      in if peek r 0 = Some (CHR ''>'') then
           (let i = i + 1; r = drop 1 r in
            if peek r 0 = Some (CHR ''>'') then
              Some (i + 1, drop 1 r, MetaAppend (Number fdStr) True)
            else if peek r 0 = Some (CHR ''&'') then
              (let i = i + 1; r = drop 1 r;
                   dupStr = takeWhile isDigit r;
                   i = i + length dupStr
               in Some (i, dropWhile isDigit r,
                        MetaDup (Number fdStr) (if dupStr = [] then None else Some (Number dupStr))))
            else Some (i, r, MetaAppend (Number fdStr) False))
         else None)"

lemma lex_fd_length:
  assumes "lex_fd i s = Some (i', r', m)"
  shows "length r' < length s"
proof -
  define r where "r = dropWhile isDigit s"
  have d: "length r \<le> length s"
    unfolding r_def by (rule length_dropWhile_le)
  have d2: "length (dropWhile isDigit (drop 1 (drop 1 r))) \<le> length (drop 1 (drop 1 r))"
    by (rule length_dropWhile_le)
  from assms have ne: "r \<noteq> []"
    by (auto simp: lex_fd_def Let_def peek_def r_def split: if_splits)
  from assms have "r' = drop 1 (drop 1 r) \<or> r' = dropWhile isDigit (drop 1 (drop 1 r)) \<or> r' = drop 1 r"
    unfolding lex_fd_def Let_def r_def by (simp split: if_splits)
  moreover have "length (drop 1 r) < length s"
    using ne d by (cases r) auto
  moreover have "length (drop 1 (drop 1 r)) < length s"
    using ne d by (cases r) auto
  ultimately show ?thesis
    using d2 by auto
qed

lemma scan_word_progress:
  assumes "\<not> isSpace c" "c \<noteq> CHR ''|''" "c \<noteq> CHR ''<''" "c \<noteq> CHR ''>''"
    "\<not> (c = CHR ''&'' \<and> peek (c # cs) 1 = Some (CHR ''>''))"
  shows "length (snd (scan_word i (c # cs))) \<le> length cs"
proof (cases "c = SQ \<or> c = DQ")
  case True
  obtain i' rest' where sq: "scan_quoted c (i + 1) cs = (i', rest')"
    by (cases "scan_quoted c (i + 1) cs")
  have "length (snd (scan_quoted c (i + 1) cs)) \<le> length cs"
    by (rule scan_quoted_length)
  with sq have l: "length rest' \<le> length cs" by simp
  have "length (snd (scan_word i' rest')) \<le> length rest'"
    by (rule scan_word_length)
  with l have "length (snd (scan_word i' rest')) \<le> length cs" by linarith
  with assms True sq show ?thesis by auto
next
  case nq: False
  show ?thesis
  proof (cases "c = BSL")
    case True
    have "length (snd (scan_word (i + 2) (drop 1 cs))) \<le> length (drop 1 cs)"
      by (rule scan_word_length)
    then have "length (snd (scan_word (i + 2) (drop 1 cs))) \<le> length cs" by simp
    with assms nq True show ?thesis by auto
  next
    case False
    have "length (snd (scan_word (i + 1) cs)) \<le> length cs"
      by (rule scan_word_length)
    with assms nq False show ?thesis by auto
  qed
qed

function lex_loop :: "nat \<Rightarrow> string \<Rightarrow> Token list \<Rightarrow> Token list" where
  "lex_loop i [] tokens = tokens"
| "lex_loop i (ch # cs) tokens =
     (if isSpace ch then lex_loop (i + 1) cs tokens
      else if ch = CHR ''|'' then
        lex_loop (i + 1) cs (pushToken tokens (ch # cs) Pipe i (i + 1) None)
      else if ch = CHR ''&'' \<and> peek (ch # cs) 1 = Some (CHR ''>'') then
        lex_loop (i + 2) (drop 1 cs) (pushToken tokens (ch # cs) AMP_GT i (i + 2) None)
      else
        (case (if isDigit ch then lex_fd i (ch # cs) else None) of
           Some (i', rest', m) \<Rightarrow>
             lex_loop i' rest' (pushToken tokens (ch # cs) FD_GT i i' (Some m))
         | None \<Rightarrow>
             if ch = CHR ''>'' then
               (if peek (ch # cs) 1 = Some (CHR ''>'') then
                  lex_loop (i + 2) (drop 1 cs) (pushToken tokens (ch # cs) GTGT i (i + 2) None)
                else lex_loop (i + 1) cs (pushToken tokens (ch # cs) GT i (i + 1) None))
             else if ch = CHR ''<'' then
               lex_loop (i + 1) cs (pushToken tokens (ch # cs) LT i (i + 1) None)
             else
               (case scan_word i (ch # cs) of
                  (wend, rest') \<Rightarrow>
                    lex_loop wend rest' (pushToken tokens (ch # cs) Word i wend None))))"
  by pat_completeness auto
termination
proof (relation "measure (\<lambda>(i, s, tokens). length s)")
  show "wf (measure (\<lambda>(i, s, tokens). length s))" by simp
next
  fix i ch cs tokens x2 x y xa ya
  assume "(if isDigit ch then lex_fd i (ch # cs) else None) = Some x2" "(x, y) = x2" "(xa, ya) = y"
  then have "lex_fd i (ch # cs) = Some (x, xa, ya)"
    by (auto split: if_splits)
  then have "length xa < length (ch # cs)" by (rule lex_fd_length)
  then show "((x, xa, pushToken tokens (ch # cs) FD_GT i x (Some ya)), i, ch # cs, tokens)
       \<in> measure (\<lambda>(i, s, tokens). length s)" by simp
next
  fix i ch cs tokens x y
  assume a: "\<not> isSpace ch" "ch \<noteq> CHR ''|''" "\<not> (ch = CHR ''&'' \<and> peek (ch # cs) 1 = Some CHR ''>'')"
    "ch \<noteq> CHR ''>''" "ch \<noteq> CHR ''<''" "(x, y) = scan_word i (ch # cs)"
  have "length (snd (scan_word i (ch # cs))) \<le> length cs"
    using a(1,2,5,4,3) by (rule scan_word_progress)
  with a(6) have "length y \<le> length cs" by (metis snd_conv)
  then show "((x, y, pushToken tokens (ch # cs) Word i x None), i, ch # cs, tokens)
       \<in> measure (\<lambda>(i, s, tokens). length s)" by simp
qed auto

text \<open>
  The function \<^verbatim>\<open>lex\<close> of the source. It is called \<open>lex_input\<close> here, since \<open>lex\<close> is a constant
  of the list library of HOL.
\<close>

definition lex_input :: "string \<Rightarrow> Token list" where
  "lex_input input = (let N = length input in pushToken (lex_loop 0 input []) (drop N input) EOF N N None)"

section \<open>The syntax tree\<close>

text \<open>
  A span is \<^verbatim>\<open>{start, end}\<close>. A field name belongs to one record, so the fields of a span are
  \<open>span_start\<close> and \<open>span_end\<close>, and the \<^verbatim>\<open>span\<close> fields of a word, a redirection, a command
  and a pipeline are \<open>wspan\<close>, \<open>rspan\<close>, \<open>cspan\<close> and \<open>pspan\<close>. The constant \<^verbatim>\<open>kind\<close> tag of
  these nodes is left out.
\<close>

record Span =
  span_start :: nat
  span_end :: nat

definition makeSpan :: "nat \<Rightarrow> nat \<Rightarrow> Span" where
  "makeSpan s e = \<lparr>span_start = s, span_end = e\<rparr>"

text \<open>
  A part of a word is \<^verbatim>\<open>{kind: 'Text', value, span}\<close> or \<^verbatim>\<open>{kind: 'Var', name, braced, span}\<close>;
  the \<^verbatim>\<open>kind\<close> tag is the constructor.
\<close>

datatype Part =
  is_Text: Text (value': string) (span: Span)
| is_Var: Var (name: string) (braced: bool) (span: Span)

record Word =
  parts :: "Part list"
  wspan :: Span

text \<open>
  In a redirection \<^verbatim>\<open>fd\<close> is \<^verbatim>\<open>undefined\<close> (\<open>None\<close>) unless the operator carries a number;
  \<^verbatim>\<open>op\<close> starts as \<^verbatim>\<open>null\<close> (\<open>None\<close>); \<^verbatim>\<open>dupTargetFd\<close> is \<^verbatim>\<open>undefined\<close> (\<open>None\<close>) for an
  operator that is not a dup, \<^verbatim>\<open>null\<close> (\<open>Some None\<close>) for a dup without digits, and a number
  otherwise.
\<close>

record Redirection =
  fd :: "nat option"
  op :: "string option"
  target :: Word
  dupTargetFd :: "nat option option"
  rspan :: Span

record Command =
  words :: "Word list"
  redirections :: "Redirection list"
  cspan :: Span

record Pipeline =
  commands :: "Command list"
  pspan :: Span

section \<open>The word splitter\<close>

text \<open>In the functions below the array \<^verbatim>\<open>parts\<close> under construction is called \<open>ps\<close>.\<close>

definition pushText :: "Part list \<Rightarrow> nat \<Rightarrow> string \<Rightarrow> nat \<Rightarrow> nat \<Rightarrow> Part list" where
  "pushText ps baseOffset s st en =
     (if s = [] then ps
      else ps @ [Text s (makeSpan (baseOffset + st) (baseOffset + en))])"

definition pushVar :: "Part list \<Rightarrow> nat \<Rightarrow> string \<Rightarrow> bool \<Rightarrow> nat \<Rightarrow> nat \<Rightarrow> Part list" where
  "pushVar ps baseOffset nm br st en =
     ps @ [Var nm br (makeSpan (baseOffset + st) (baseOffset + en))]"

text \<open>
  The source parses a variable reference at three places with the same code (unquoted, inside
  double quotes, and in \<^verbatim>\<open>scanTextForVars\<close>, where the positions are shifted by \<open>offset\<close>).
  The cursor \<open>i\<close> is at the \<^verbatim>\<open>$\<close> and \<open>cs\<close> is the text after it. The result is the parts, the
  cursor after the reference and the text from there on.
\<close>

definition scan_dollar ::
  "Part list \<Rightarrow> nat \<Rightarrow> nat \<Rightarrow> nat \<Rightarrow> string \<Rightarrow> Part list \<times> nat \<times> string" where
  "scan_dollar ps baseOffset offset i cs =
     (if peek cs 0 = Some (CHR ''{'') then
        (let varName = takeWhile (\<lambda>c. c \<noteq> CHR ''}'') (drop 1 cs);
             j = i + 2 + length varName
         in (pushVar ps baseOffset varName True (offset + i) (offset + j + 1), j + 1,
             drop 1 (dropWhile (\<lambda>c. c \<noteq> CHR ''}'') (drop 1 cs))))
      else if (case peek cs 0 of Some next \<Rightarrow> isVarStart next | None \<Rightarrow> False) then
        (let varName = take 1 cs @ takeWhile isVarChar (drop 1 cs);
             j = i + 1 + length varName
         in (pushVar ps baseOffset varName False (offset + i) (offset + j), j,
             dropWhile isVarChar (drop 1 cs)))
      else (pushText ps baseOffset ''$'' (offset + i) (offset + i + 1), i + 1, cs))"

lemma scan_dollar_length: "length (snd (snd (scan_dollar ps b off i cs))) \<le> length cs"
proof -
  have a: "length (drop 1 (dropWhile (\<lambda>c. c \<noteq> CHR ''}'') (drop 1 cs))) \<le> length cs"
    using length_dropWhile_le [of "\<lambda>c. c \<noteq> CHR ''}''" "drop 1 cs"] by simp
  have b: "length (dropWhile isVarChar (drop 1 cs)) \<le> length cs"
    using length_dropWhile_le [of isVarChar "drop 1 cs"] by simp
  show ?thesis
    unfolding scan_dollar_def Let_def using a b by simp
qed

text \<open>
  \<^verbatim>\<open>scanTextForVars(text, offset)\<close>: the loop over \<open>p\<close> with \<open>accStart\<close>; \<open>rest\<close> is the text from
  \<open>p\<close> on.
\<close>

function scanTextForVars_loop ::
  "nat \<Rightarrow> nat \<Rightarrow> string \<Rightarrow> Part list \<Rightarrow> nat \<Rightarrow> nat \<Rightarrow> string \<Rightarrow> Part list" where
  "scanTextForVars_loop baseOffset offset txt ps p accStart [] =
     (if accStart < length txt then
        pushText ps baseOffset (drop accStart txt) (offset + accStart) (offset + length txt)
      else ps)"
| "scanTextForVars_loop baseOffset offset txt ps p accStart (c # cs) =
     (if c = CHR ''$'' then
        (let ps1 =
               (if p > accStart then
                  pushText ps baseOffset (take (p - accStart) (drop accStart txt))
                    (offset + accStart) (offset + p)
                else ps)
         in case scan_dollar ps1 baseOffset offset p cs of
              (ps2, p', rest') \<Rightarrow>
                scanTextForVars_loop baseOffset offset txt ps2 p' p' rest')
      else scanTextForVars_loop baseOffset offset txt ps (p + 1) accStart cs)"
  by pat_completeness auto
termination
proof (relation "measure (\<lambda>(b, off, t, ps, p, a, rest). length rest)")
  fix b off t ps p a c cs x xa y xb ya
  assume "(xa, y) = scan_dollar x b off p cs" "(xb, ya) = y"
  then have "ya = snd (snd (scan_dollar x b off p cs))"
    by (metis snd_conv)
  then have "length ya \<le> length cs"
    by (simp add: scan_dollar_length)
  then show "((b, off, t, xa, xb, xb, ya), b, off, t, ps, p, a, c # cs)
       \<in> measure (\<lambda>(b, off, t, ps, p, a, rest). length rest)"
    by simp
qed auto

definition scanTextForVars :: "Part list \<Rightarrow> nat \<Rightarrow> string \<Rightarrow> nat \<Rightarrow> Part list" where
  "scanTextForVars ps baseOffset txt offset =
     scanTextForVars_loop baseOffset offset txt ps 0 0 txt"

text \<open>
  The loop over a double-quoted region, entered after the opening quote. \<open>seg\<close> is
  \<^verbatim>\<open>raw.slice(segmentStart, i)\<close>. When the text ends before a closing quote the loop ends
  with the pending segment unflushed.
\<close>

function dq_loop ::
  "nat \<Rightarrow> Part list \<Rightarrow> nat \<Rightarrow> string \<Rightarrow> nat \<Rightarrow> string \<Rightarrow> Part list \<times> nat \<times> string" where
  "dq_loop baseOffset ps segmentStart seg i [] = (ps, i, [])"
| "dq_loop baseOffset ps segmentStart seg i (c # cs) =
     (if c = BSL then
        (let ps1 = (if i > segmentStart then pushText ps baseOffset seg segmentStart i else ps);
             esc = take 1 cs;
             ps2 = (if esc = ''n'' then pushText ps1 baseOffset [LF] i (i + 2)
                    else if esc = ''t'' then pushText ps1 baseOffset [TAB] i (i + 2)
                    else pushText ps1 baseOffset esc i (i + 2))
         in dq_loop baseOffset ps2 (i + 2) [] (i + 2) (drop 1 cs))
      else if c = DQ then
        (let ps1 = (if i > segmentStart then scanTextForVars ps baseOffset seg segmentStart else ps)
         in (ps1, i + 1, cs))
      else if c = CHR ''$'' then
        (let ps1 = (if i > segmentStart then scanTextForVars ps baseOffset seg segmentStart else ps)
         in case scan_dollar ps1 baseOffset 0 i cs of
              (ps2, i', rest') \<Rightarrow> dq_loop baseOffset ps2 i' [] i' rest')
      else dq_loop baseOffset ps segmentStart (seg @ [c]) (i + 1) cs)"
  by pat_completeness auto
termination
proof (relation "measure (\<lambda>(b, ps, ss, seg, i, rest). length rest)")
  fix b ps ss seg i c cs x xa y xb ya
  assume "(xa, y) = scan_dollar x b 0 i cs" "(xb, ya) = y"
  then have "ya = snd (snd (scan_dollar x b 0 i cs))"
    by (metis snd_conv)
  then have "length ya \<le> length cs"
    by (simp add: scan_dollar_length)
  then show "((b, xa, xb, [], xb, ya), b, ps, ss, seg, i, c # cs)
       \<in> measure (\<lambda>(b, ps, ss, seg, i, rest). length rest)"
    by simp
qed auto

lemma dq_loop_length: "length (snd (snd (dq_loop b ps ss seg i rest))) \<le> length rest"
proof (induction b ps ss seg i rest rule: dq_loop.induct)
  case (1 b ps ss seg i)
  show ?case by simp
next
  case (2 b ps ss seg i c cs)
  show ?case
  proof (cases "c = BSL")
    case True
    have "length (snd (snd (dq_loop b
        (if take 1 cs = ''n'' then pushText (if i > ss then pushText ps b seg ss i else ps) b [LF] i (i + 2)
         else if take 1 cs = ''t'' then pushText (if i > ss then pushText ps b seg ss i else ps) b [TAB] i (i + 2)
         else pushText (if i > ss then pushText ps b seg ss i else ps) b (take 1 cs) i (i + 2))
        (i + 2) [] (i + 2) (drop 1 cs)))) \<le> length (drop 1 cs)"
      using 2(1) [OF True refl refl refl] .
    then have "length (snd (snd (dq_loop b
        (if take 1 cs = ''n'' then pushText (if i > ss then pushText ps b seg ss i else ps) b [LF] i (i + 2)
         else if take 1 cs = ''t'' then pushText (if i > ss then pushText ps b seg ss i else ps) b [TAB] i (i + 2)
         else pushText (if i > ss then pushText ps b seg ss i else ps) b (take 1 cs) i (i + 2))
        (i + 2) [] (i + 2) (drop 1 cs)))) \<le> Suc (length cs)"
      by simp
    then show ?thesis unfolding dq_loop.simps Let_def using True by simp
  next
    case nb: False
    show ?thesis
    proof (cases "c = DQ")
      case True
      then show ?thesis using nb by (simp add: Let_def)
    next
      case nq: False
      show ?thesis
      proof (cases "c = CHR ''$''")
        case True
        define ps1 where "ps1 = (if i > ss then scanTextForVars ps b seg ss else ps)"
        obtain ps2 i' rest' where sd: "scan_dollar ps1 b 0 i cs = (ps2, i', rest')"
          by (cases "scan_dollar ps1 b 0 i cs")
        have "length (snd (snd (scan_dollar ps1 b 0 i cs))) \<le> length cs"
          by (rule scan_dollar_length)
        with sd have l: "length rest' \<le> length cs" by simp
        have "length (snd (snd (dq_loop b ps2 i' [] i' rest'))) \<le> length rest'"
          using 2(2) [OF nb nq True ps1_def] sd by simp
        with l have "length (snd (snd (dq_loop b ps2 i' [] i' rest'))) \<le> Suc (length cs)"
          by linarith
        then show ?thesis using nb nq True sd by (simp add: Let_def ps1_def)
      next
        case False
        have "length (snd (snd (dq_loop b ps ss (seg @ [c]) (i + 1) cs))) \<le> length cs"
          using 2(3) [OF nb nq False] .
        then show ?thesis using nb nq False by simp
      qed
    qed
  qed
qed

text \<open>
  The main loop of \<^verbatim>\<open>splitWordIntoParts\<close>; \<open>i\<close> is the cursor into \<^verbatim>\<open>raw\<close> and the last argument
  is \<^verbatim>\<open>raw\<close> from \<open>i\<close> on.
\<close>

lemma length_dropWhile_less_Suc: "length (dropWhile P cs) - n < Suc (length cs)"
  using length_dropWhile_le [of P cs] by linarith

definition isSpecial :: "char \<Rightarrow> bool" where
  "isSpecial c \<longleftrightarrow> c = SQ \<or> c = DQ \<or> c = BSL \<or> c = CHR ''$''"

function split_loop :: "nat \<Rightarrow> Part list \<Rightarrow> nat \<Rightarrow> string \<Rightarrow> Part list" where
  "split_loop baseOffset ps i [] = ps"
| "split_loop baseOffset ps i (ch # cs) =
     (if ch = SQ then
        (let innerStart = i + 1;
             inner = takeWhile (\<lambda>c. c \<noteq> SQ) cs;
             r = dropWhile (\<lambda>c. c \<noteq> SQ) cs;
             i1 = innerStart + length inner;
             ps1 = pushText ps baseOffset inner innerStart (innerStart + length inner)
         in if peek r 0 = Some SQ then split_loop baseOffset ps1 (i1 + 1) (drop 1 r)
            else split_loop baseOffset ps1 i1 r)
      else if ch = DQ then
        (case dq_loop baseOffset ps (i + 1) [] (i + 1) cs of
           (ps1, i1, rest1) \<Rightarrow> split_loop baseOffset ps1 i1 rest1)
      else if ch = BSL then
        (if cs \<noteq> [] then split_loop baseOffset (pushText ps baseOffset (take 1 cs) i (i + 2)) (i + 2) (drop 1 cs)
         else split_loop baseOffset (pushText ps baseOffset [BSL] i (i + 1)) (i + 1) cs)
      else if ch = CHR ''$'' then
        (case scan_dollar ps baseOffset 0 i cs of
           (ps1, i1, rest1) \<Rightarrow> split_loop baseOffset ps1 i1 rest1)
      else
        (let run = takeWhile (\<lambda>c. \<not> isSpecial c) (ch # cs);
             i1 = i + length run;
             ps1 = (if i1 > i then pushText ps baseOffset run i i1 else ps)
         in split_loop baseOffset ps1 i1 (dropWhile (\<lambda>c. \<not> isSpecial c) (ch # cs))))"
  by pat_completeness auto
termination
proof (relation "measure (\<lambda>(b, ps, i, rest). length rest)")
  fix b ps i ch cs x xa y xb ya xc
  assume "(xb, ya) = dq_loop b ps (i + 1) [] (i + 1) cs" "(xc, y) = ya"
  then have "y = snd (snd (dq_loop b ps (i + 1) [] (i + 1) cs))"
    by (metis snd_conv)
  then have "length y \<le> length cs"
    by (simp add: dq_loop_length)
  then show "((b, xb, xc, y), b, ps, i, ch # cs) \<in> measure (\<lambda>(b, ps, i, rest). length rest)"
    by simp
next
  fix b ps i ch cs x y xa ya
  assume "(x, y) = scan_dollar ps b 0 i cs" "(xa, ya) = y"
  then have "ya = snd (snd (scan_dollar ps b 0 i cs))"
    by (metis snd_conv)
  then have "length ya \<le> length cs"
    by (simp add: scan_dollar_length)
  then show "((b, x, xa, ya), b, ps, i, ch # cs) \<in> measure (\<lambda>(b, ps, i, rest). length rest)"
    by simp
next
  fix b ps i ch cs x xa xb xc xd
  assume "ch \<noteq> SQ" "ch \<noteq> DQ" "ch \<noteq> BSL" "ch \<noteq> CHR ''$''"
  then have "\<not> isSpecial ch" by (simp add: isSpecial_def)
  then have "dropWhile (\<lambda>c. \<not> isSpecial c) (ch # cs) = dropWhile (\<lambda>c. \<not> isSpecial c) cs" by simp
  moreover have "length (dropWhile (\<lambda>c. \<not> isSpecial c) cs) \<le> length cs"
    by (rule length_dropWhile_le)
  ultimately show "((b, xd, xc, dropWhile (\<lambda>c. \<not> isSpecial c) (ch # cs)), b, ps, i, ch # cs)
       \<in> measure (\<lambda>(b, ps, i, rest). length rest)"
    by simp
qed (auto simp: length_dropWhile_less_Suc length_dropWhile_less_Suc [where n = 0, simplified])

text \<open>
  The final pass merges consecutive \<open>Text\<close> parts: a \<open>Text\<close> part that follows a \<open>Text\<close> part is
  appended to it, and the span of the earlier part is extended.
\<close>

definition merge_step :: "Part list \<Rightarrow> Part \<Rightarrow> Part list" where
  "merge_step merged part =
     (if merged \<noteq> [] \<and> is_Text (last merged) \<and> is_Text part then
        (let prev = last merged
         in butlast merged @
            [Text (value' prev @ value' part) ((span prev)\<lparr>span_end := span_end (span part)\<rparr>)])
      else merged @ [part])"

definition splitWordIntoParts :: "string \<Rightarrow> nat \<Rightarrow> Part list" where
  "splitWordIntoParts raw baseOffset = foldl merge_step [] (split_loop baseOffset [] 0 raw)"

section \<open>The parser\<close>

definition makeWord :: "string \<Rightarrow> nat \<Rightarrow> Word" where
  "makeWord rawText startOffset =
     \<lparr>parts = splitWordIntoParts rawText startOffset,
      wspan = makeSpan startOffset (startOffset + length rawText)\<rparr>"

text \<open>
  \<^verbatim>\<open>peekTok()\<close> is \<^verbatim>\<open>tokens[idx] ?? tokens[tokens.length - 1]\<close>; \<^verbatim>\<open>eatTok()\<close> returns the same
  token and increments \<open>idx\<close>. The token array of \<^verbatim>\<open>parse\<close> comes from \<open>lex_input\<close> and is never empty.
\<close>

definition peekTok :: "Token list \<Rightarrow> nat \<Rightarrow> Token" where
  "peekTok tokens idx = (if idx < length tokens then tokens ! idx else last tokens)"

text \<open>
  The operator and descriptor information of a redirection token:
  \<^verbatim>\<open>(op, fd, dup, dupTarget)\<close>, initially \<^verbatim>\<open>(null, undefined, false, null)\<close>. Every \<open>FD_GT\<close>
  token of \<open>lex_input\<close> carries a \<^verbatim>\<open>meta\<close> object; the source would raise on \<^verbatim>\<open>t.meta.fd\<close> otherwise.
\<close>

definition redir_info :: "Token \<Rightarrow> string option \<times> nat option \<times> bool \<times> nat option" where
  "redir_info t =
     (if kind t = AMP_GT then (Some ''clobber'', None, False, None)
      else if kind t = GT then (Some ''>'', None, False, None)
      else if kind t = GTGT then (Some ''>>'', None, False, None)
      else if kind t = LT then (Some ''<'', None, False, None)
      else if kind t = FD_GT then
        (case meta t of
           Some (MetaDup n dupTarget) \<Rightarrow> (Some ''dup'', Some n, True, dupTarget)
         | Some (MetaAppend n app) \<Rightarrow> (Some (if app then ''>>'' else ''>''), Some n, False, None)
         | None \<Rightarrow> (None, None, False, None))
      else (None, None, False, None))"

definition mkRedirection :: "Token \<Rightarrow> Word \<Rightarrow> nat \<Rightarrow> Redirection" where
  "mkRedirection t targetWord spanEnd =
     (case redir_info t of
        (op', fd', dup, dupTarget) \<Rightarrow>
          \<lparr>fd = fd', op = op', target = targetWord,
           dupTargetFd = (if dup then Some dupTarget else None),
           rspan = makeSpan (start t) spanEnd\<rparr>)"

text \<open>
  The loop \<^verbatim>\<open>while (true)\<close> of \<^verbatim>\<open>parseCommand\<close>. It runs forever on a token array whose last
  token is a word, so it is a partial function: \<open>None\<close> is a loop that does not end.
\<close>

partial_function (option) parseCommand_loop ::
  "Token list \<Rightarrow> nat \<Rightarrow> Word list \<Rightarrow> Redirection list \<Rightarrow> (nat \<times> Word list \<times> Redirection list) option" where
  "parseCommand_loop tokens idx ws redirs =
     (let tk = peekTok tokens idx in
      if kind tk = EOF \<or> kind tk = Pipe then Some (idx, ws, redirs)
      else if kind tk = Word then
        parseCommand_loop tokens (idx + 1) (ws @ [makeWord (text' tk) (start tk)]) redirs
      else if kind tk = GT \<or> kind tk = GTGT \<or> kind tk = LT \<or> kind tk = AMP_GT \<or> kind tk = FD_GT then
        (let next = peekTok tokens (idx + 1) in
         if kind next \<noteq> Word then
           parseCommand_loop tokens (idx + 1) ws
             (redirs @ [mkRedirection tk (makeWord [] (end' tk)) (end' tk)])
         else
           parseCommand_loop tokens (idx + 2) ws
             (redirs @ [mkRedirection tk (makeWord (text' next) (start next)) (end' next)]))
      else parseCommand_loop tokens (idx + 1) ws redirs)"

declare parseCommand_loop.simps [code]

definition parseCommand :: "Token list \<Rightarrow> nat \<Rightarrow> (Command \<times> nat) option" where
  "parseCommand tokens idx =
     (let cmdStart = start (peekTok tokens idx) in
      case parseCommand_loop tokens idx [] [] of
        None \<Rightarrow> None
      | Some (idx', ws, redirs) \<Rightarrow>
          Some (\<lparr>words = ws, redirections = redirs,
                 cspan = makeSpan cmdStart (start (peekTok tokens idx'))\<rparr>, idx'))"

partial_function (option) parse_loop ::
  "Token list \<Rightarrow> nat \<Rightarrow> Command list \<Rightarrow> (nat \<times> Command list) option" where
  "parse_loop tokens idx cmds =
     (if kind (peekTok tokens idx) \<noteq> EOF then
        (case parseCommand tokens idx of
           None \<Rightarrow> None
         | Some (cmd, idx') \<Rightarrow>
             if kind (peekTok tokens idx') = Pipe then parse_loop tokens (idx' + 1) (cmds @ [cmd])
             else Some (idx', cmds @ [cmd]))
      else Some (idx, cmds))"

declare parse_loop.simps [code]

definition parse :: "string \<Rightarrow> Pipeline option" where
  "parse input =
     (let tokens = lex_input input in
      case parse_loop tokens 0 [] of
        None \<Rightarrow> None
      | Some (idx, cmds) \<Rightarrow>
          Some \<lparr>commands = cmds, pspan = makeSpan 0 (end' (peekTok tokens idx))\<rparr>)"

section \<open>Expansion\<close>

text \<open>
  A context value is \<^verbatim>\<open>undefined\<close>, \<^verbatim>\<open>null\<close>, a string, or another scalar (a number, a
  boolean), whose conversion by \<^verbatim>\<open>String\<close> is a parameter \<open>str\<close>. The context is the map from
  a name to the value of the property that \<^verbatim>\<open>ctx[name]\<close> finds, its own or an inherited one;
  reading a name for which it finds none gives \<^verbatim>\<open>undefined\<close>.
\<close>

datatype 'a JSValue = Undefined | Null | Str string | Scalar 'a

definition String :: "('a \<Rightarrow> string) \<Rightarrow> 'a JSValue \<Rightarrow> string" where
  "String str v =
     (case v of Undefined \<Rightarrow> ''undefined'' | Null \<Rightarrow> ''null'' | Str s \<Rightarrow> s | Scalar x \<Rightarrow> str x)"

definition lookup :: "(string \<rightharpoonup> 'a JSValue) \<Rightarrow> string \<Rightarrow> 'a JSValue" where
  "lookup ctx n = (case ctx n of None \<Rightarrow> Undefined | Some v \<Rightarrow> v)"

definition expand_step :: "('a \<Rightarrow> string) \<Rightarrow> (string \<rightharpoonup> 'a JSValue) \<Rightarrow> string \<Rightarrow> Part \<Rightarrow> string" where
  "expand_step str ctx out p =
     (case p of
        Text v sp \<Rightarrow> out @ v
      | Var n b sp \<Rightarrow>
          (let val = lookup ctx n
           in out @ (if val = Undefined \<or> val = Null then [] else String str val)))"

definition expandWord :: "('a \<Rightarrow> string) \<Rightarrow> Word \<Rightarrow> (string \<rightharpoonup> 'a JSValue) \<Rightarrow> string" where
  "expandWord str word ctx = foldl (expand_step str ctx) [] (parts word)"

definition buildArgv :: "('a \<Rightarrow> string) \<Rightarrow> Command \<Rightarrow> (string \<rightharpoonup> 'a JSValue) \<Rightarrow> string list" where
  "buildArgv str command ctx = map (\<lambda>w. expandWord str w ctx) (words command)"

section \<open>Properties of the expander\<close>

text \<open>
  What a part contributes to the expansion, in the words of the specification: a text part
  its literal value; a variable part the string form of the context value, or the empty string
  when the name is absent or its value is null or undefined.
\<close>

definition part_contribution :: "('a \<Rightarrow> string) \<Rightarrow> (string \<rightharpoonup> 'a JSValue) \<Rightarrow> Part \<Rightarrow> string" where
  "part_contribution str ctx p =
     (case p of
        Text v sp \<Rightarrow> v
      | Var n b sp \<Rightarrow>
          (case ctx n of
             None \<Rightarrow> []
           | Some Undefined \<Rightarrow> []
           | Some Null \<Rightarrow> []
           | Some v \<Rightarrow> String str v))"

lemma expand_step_contribution: "expand_step str ctx out p = out @ part_contribution str ctx p"
  by (cases p) (auto simp: expand_step_def part_contribution_def lookup_def Let_def
      split: option.splits JSValue.splits)

lemma foldl_expand_step:
  "foldl (expand_step str ctx) out ps = out @ concat (map (part_contribution str ctx) ps)"
  by (induction ps arbitrary: out) (simp_all add: expand_step_contribution)

lemma expandWord_concat: "expandWord str w ctx = concat (map (part_contribution str ctx) (parts w))"
  by (simp add: expandWord_def foldl_expand_step)








section \<open>The merge pass\<close>

fun no_adjacent_text :: "Part list \<Rightarrow> bool" where
  "no_adjacent_text (p # q # ps) = (\<not> (is_Text p \<and> is_Text q) \<and> no_adjacent_text (q # ps))"
| "no_adjacent_text ps = True"

lemma no_adjacent_text_snoc:
  "no_adjacent_text (ps @ [x]) \<longleftrightarrow>
     no_adjacent_text ps \<and> (ps = [] \<or> \<not> (is_Text (last ps) \<and> is_Text x))"
  by (induction ps rule: no_adjacent_text.induct) auto

lemma merge_step_no_adjacent:
  assumes "no_adjacent_text merged"
  shows "no_adjacent_text (merge_step merged part)"
proof (cases "merged \<noteq> [] \<and> is_Text (last merged) \<and> is_Text part")
  case True
  then obtain bs l where ml: "merged = bs @ [l]"
    by (metis append_butlast_last_id)
  with assms have "no_adjacent_text (bs @ [l])" by simp
  then have "no_adjacent_text bs" and "bs = [] \<or> \<not> (is_Text (last bs) \<and> is_Text l)"
    by (simp_all add: no_adjacent_text_snoc)
  then show ?thesis
    using True ml by (auto simp: merge_step_def Let_def no_adjacent_text_snoc)
next
  case False
  with assms show ?thesis
    by (auto simp: merge_step_def no_adjacent_text_snoc)
qed

lemma foldl_merge_step_no_adjacent:
  "no_adjacent_text merged \<Longrightarrow> no_adjacent_text (foldl merge_step merged ps)"
  by (induction ps arbitrary: merged) (simp_all add: merge_step_no_adjacent)

lemma splitWordIntoParts_no_adjacent: "no_adjacent_text (splitWordIntoParts raw baseOffset)"
  by (simp add: splitWordIntoParts_def foldl_merge_step_no_adjacent)

section \<open>Top-level characters\<close>

text \<open>
  The characters of an input that stand at top level, in the words of the specification: a
  quoted region is an opaque span, opened by a quote at top level and closed by the next
  matching quote (inside double quotes a backslash and the character after it form a pair);
  a backslash outside quotes escapes exactly the next character. The characters inside a
  quoted region, the closing quote and an escaped character are not at top level.
\<close>

datatype QState = Top | Esc | InSQ | InDQ | InDQEsc

fun top_level_from :: "QState \<Rightarrow> string \<Rightarrow> string" where
  "top_level_from st [] = []"
| "top_level_from Top (c # cs) =
     c # top_level_from (if c = BSL then Esc else if c = SQ then InSQ else if c = DQ then InDQ else Top) cs"
| "top_level_from Esc (c # cs) = top_level_from Top cs"
| "top_level_from InSQ (c # cs) = top_level_from (if c = SQ then Top else InSQ) cs"
| "top_level_from InDQ (c # cs) =
     top_level_from (if c = BSL then InDQEsc else if c = DQ then Top else InDQ) cs"
| "top_level_from InDQEsc (c # cs) = top_level_from InDQ cs"

definition top_level :: "string \<Rightarrow> string" where
  "top_level s = top_level_from Top s"

lemma top_level_from_Esc: "top_level_from Esc cs = top_level_from Top (drop 1 cs)"
  by (cases cs) simp_all

lemma top_level_from_plain:
  "\<forall>c\<in>set w. c \<noteq> BSL \<and> c \<noteq> SQ \<and> c \<noteq> DQ \<Longrightarrow> top_level_from Top (w @ r) = w @ top_level_from Top r"
  by (induction w) simp_all

lemma scan_quoted_SQ_top: "top_level_from InSQ cs = top_level_from Top (snd (scan_quoted SQ i cs))"
  by (induction cs arbitrary: i) simp_all

lemma scan_quoted_DQ_top: "top_level_from InDQ cs = top_level_from Top (snd (scan_quoted DQ i cs))"
proof (induction "length cs" arbitrary: cs i rule: less_induct)
  case less
  show ?case
  proof (cases cs)
    case Nil
    then show ?thesis by simp
  next
    case (Cons cc cs1)
    show ?thesis
    proof (cases "cc = BSL")
      case True
      show ?thesis
      proof (cases cs1)
        case Nil
        with Cons True show ?thesis by simp
      next
        case c2: (Cons c2 cs2)
        have "top_level_from InDQ cs2 = top_level_from Top (snd (scan_quoted DQ (i + 2) cs2))"
          using less [of cs2 "i + 2"] Cons c2 by simp
        with Cons True c2 show ?thesis by simp
      qed
    next
      case False
      have "top_level_from InDQ cs1 = top_level_from Top (snd (scan_quoted DQ (i + 1) cs1))"
        using less [of cs1 "i + 1"] Cons by simp
      with Cons False show ?thesis by simp
    qed
  qed
qed

text \<open>The part of the top-level characters that one word covers.\<close>

lemma scan_word_top:
  "\<exists>w. top_level_from Top s = w @ top_level_from Top (snd (scan_word i s))
       \<and> (\<forall>c\<in>set w. \<not> isSpace c \<and> c \<noteq> CHR ''|'')
       \<and> (w = [] \<longrightarrow> snd (scan_word i s) = s)"
proof (induction i s rule: scan_word.induct)
  case (1 i)
  show ?case by simp
next
  case (2 i c cs)
  show ?case
  proof (cases "isSpace c \<or> c = CHR ''|'' \<or> c = CHR ''<'' \<or> c = CHR ''>''
      \<or> (c = CHR ''&'' \<and> peek (c # cs) 1 = Some (CHR ''>''))")
    case True
    then have "scan_word i (c # cs) = (i, c # cs)" by auto
    then show ?thesis by (intro exI [of _ "[]"]) simp
  next
    case brk: False
    then have ok: "\<not> isSpace c \<and> c \<noteq> CHR ''|''" by simp
    from brk have b1: "\<not> isSpace c"
      and b2: "\<not> (c = CHR ''|'' \<or> c = CHR ''<'' \<or> c = CHR ''>'')"
      and b3: "\<not> (c = CHR ''&'' \<and> peek (c # cs) 1 = Some (CHR ''>''))"
      by blast+
    show ?thesis
    proof (cases "c = SQ \<or> c = DQ")
      case True
      obtain i' rest' where sq: "scan_quoted c (i + 1) cs = (i', rest')"
        by (cases "scan_quoted c (i + 1) cs")
      have sw: "scan_word i (c # cs) = scan_word i' rest'"
        using brk True sq by auto
      have q: "top_level_from Top (c # cs) = c # top_level_from Top rest'"
        using True scan_quoted_SQ_top [of cs "i + 1"] scan_quoted_DQ_top [of cs "i + 1"] sq by auto
      obtain w where w: "top_level_from Top rest' = w @ top_level_from Top (snd (scan_word i' rest'))"
        "\<forall>c\<in>set w. \<not> isSpace c \<and> c \<noteq> CHR ''|''"
        using 2(1) [OF b1 b2 b3 True sq [symmetric]] by blast
      have "top_level_from Top (c # cs) = (c # w) @ top_level_from Top (snd (scan_word i (c # cs)))"
        using q w(1) sw by simp
      moreover have "\<forall>x\<in>set (c # w). \<not> isSpace x \<and> x \<noteq> CHR ''|''"
        using w(2) ok by simp
      moreover have "c # w \<noteq> []" by simp
      ultimately show ?thesis by blast
    next
      case nq: False
      show ?thesis
      proof (cases "c = BSL")
        case True
        have sw: "scan_word i (c # cs) = scan_word (i + 2) (drop 1 cs)"
          using brk nq True by auto
        have q: "top_level_from Top (c # cs) = c # top_level_from Top (drop 1 cs)"
          using True by (simp add: top_level_from_Esc)
        obtain w where w: "top_level_from Top (drop 1 cs) = w @ top_level_from Top (snd (scan_word (i + 2) (drop 1 cs)))"
          "\<forall>c\<in>set w. \<not> isSpace c \<and> c \<noteq> CHR ''|''"
          using 2(2) [OF b1 b2 b3 nq True] by blast
        have "top_level_from Top (c # cs) = (c # w) @ top_level_from Top (snd (scan_word i (c # cs)))"
          using q w(1) sw by simp
        moreover have "\<forall>x\<in>set (c # w). \<not> isSpace x \<and> x \<noteq> CHR ''|''"
          using w(2) ok by simp
        moreover have "c # w \<noteq> []" by simp
      ultimately show ?thesis by blast
      next
        case False
        have sw: "scan_word i (c # cs) = scan_word (i + 1) cs"
          using brk nq False by auto
        have q: "top_level_from Top (c # cs) = c # top_level_from Top cs"
          using nq False by simp
        obtain w where w: "top_level_from Top cs = w @ top_level_from Top (snd (scan_word (i + 1) cs))"
          "\<forall>c\<in>set w. \<not> isSpace c \<and> c \<noteq> CHR ''|''"
          using 2(3) [OF b1 b2 b3 nq False] by blast
        have "top_level_from Top (c # cs) = (c # w) @ top_level_from Top (snd (scan_word i (c # cs)))"
          using q w(1) sw by simp
        moreover have "\<forall>x\<in>set (c # w). \<not> isSpace x \<and> x \<noteq> CHR ''|''"
          using w(2) ok by simp
        moreover have "c # w \<noteq> []" by simp
      ultimately show ?thesis by blast
      qed
    qed
  qed
qed

lemma fd_char_plain:
  assumes "isDigit c \<or> c = CHR ''>'' \<or> c = CHR ''&''"
  shows "c \<noteq> BSL \<and> c \<noteq> SQ \<and> c \<noteq> DQ \<and> \<not> isSpace c \<and> c \<noteq> CHR ''|''"
  using assms by (auto simp: isDigit_def isSpace_def)

lemma peek_0_Some: "peek r 0 = Some c \<longleftrightarrow> (\<exists>r1. r = c # r1)"
  by (cases r) (auto simp: peek_def)

lemma peek_1_Some: "peek (ch # cs) (Suc 0) = Some c \<longleftrightarrow> (\<exists>r1. cs = c # r1)"
  by (cases cs) (auto simp: peek_def)

lemma lex_fd_consumed:
  assumes "lex_fd i s = Some (i', r', m)"
  shows "\<exists>w. s = w @ r' \<and> w \<noteq> [] \<and> (\<forall>c\<in>set w. isDigit c \<or> c = CHR ''>'' \<or> c = CHR ''&'')"
proof -
  define ds where "ds = takeWhile isDigit s"
  define r where "r = dropWhile isDigit s"
  have s: "s = ds @ r" by (simp add: ds_def r_def)
  have dd: "\<forall>c\<in>set ds. isDigit c"
    unfolding ds_def by (auto dest: set_takeWhileD)
  from assms obtain r1 where r: "r = CHR ''>'' # r1"
    unfolding lex_fd_def Let_def r_def [symmetric] by (auto simp: peek_0_Some split: if_splits)
  show ?thesis
  proof (cases "peek r1 0 = Some (CHR ''>'')")
    case True
    then obtain r2 where r1: "r1 = CHR ''>'' # r2" by (auto simp: peek_0_Some)
    from assms have "r' = r2"
      unfolding lex_fd_def Let_def r_def [symmetric] r r1 by (simp add: peek_def)
    then have "s = (ds @ ''>>'') @ r'" using s r r1 by simp
    moreover have "\<forall>c\<in>set (ds @ ''>>''). isDigit c \<or> c = CHR ''>'' \<or> c = CHR ''&''"
      using dd by auto
    ultimately show ?thesis by blast
  next
    case ngt: False
    show ?thesis
    proof (cases "peek r1 0 = Some (CHR ''&'')")
      case True
      then obtain r2 where r1: "r1 = CHR ''&'' # r2" by (auto simp: peek_0_Some)
      from assms have "r' = dropWhile isDigit r2"
        unfolding lex_fd_def Let_def r_def [symmetric] r r1 by (simp add: peek_def)
      then have "s = (ds @ ''>&'' @ takeWhile isDigit r2) @ r'" using s r r1 by simp
      moreover have "\<forall>c\<in>set (ds @ ''>&'' @ takeWhile isDigit r2). isDigit c \<or> c = CHR ''>'' \<or> c = CHR ''&''"
        using dd by (auto dest: set_takeWhileD)
      ultimately show ?thesis by blast
    next
      case False
      from assms ngt False have "r' = r1"
        unfolding lex_fd_def Let_def r_def [symmetric] r by (simp add: peek_def split: if_splits)
      then have "s = (ds @ ''>'') @ r'" using s r by simp
      moreover have "\<forall>c\<in>set (ds @ ''>''). isDigit c \<or> c = CHR ''>'' \<or> c = CHR ''&''"
        using dd by auto
      ultimately show ?thesis by blast
    qed
  qed
qed

text \<open>
  One round of the main loop of the lexer at a character that is not white space: it emits
  one token, which is not the end token, and covers a non-empty stretch \<open>w\<close> of top-level
  characters, none of them white space; \<open>w\<close> is a single \<^verbatim>\<open>|\<close> for a pipe token and has no
  \<^verbatim>\<open>|\<close> otherwise.
\<close>

definition covers :: "Token \<Rightarrow> string \<Rightarrow> bool" where
  "covers tok w \<longleftrightarrow>
     kind tok \<noteq> EOF \<and> w \<noteq> [] \<and> (\<forall>c\<in>set w. \<not> isSpace c) \<and>
     (if kind tok = Pipe then w = ''|'' else CHR ''|'' \<notin> set w)"

lemma lex_loop_token:
  assumes ns: "\<not> isSpace ch"
  shows "\<exists>tok i' rest' w. (\<forall>acc. lex_loop i (ch # cs) acc = lex_loop i' rest' (acc @ [tok]))
      \<and> length rest' \<le> length cs
      \<and> top_level_from Top (ch # cs) = w @ top_level_from Top rest' \<and> covers tok w"
proof (cases "ch = CHR ''|''")
  case True
  let ?tok = "\<lparr>kind = Pipe, text' = take (i + 1 - i) (ch # cs), start = i, end' = i + 1, meta = None\<rparr>"
  have "\<forall>acc. lex_loop i (ch # cs) acc = lex_loop (i + 1) cs (acc @ [?tok])"
    by (simp only: lex_loop.simps(2) ns eqTrueI [OF True] if_True if_False pushToken_def option.case prod.case simp_thms)
  moreover have "top_level_from Top (ch # cs) = ''|'' @ top_level_from Top cs"
    using True by simp
  moreover have "covers ?tok ''|''" by (simp add: covers_def isSpace_def)
  ultimately show ?thesis by (metis le_refl)
next
  case np: False
  show ?thesis
  proof (cases "ch = CHR ''&'' \<and> peek (ch # cs) 1 = Some (CHR ''>'')")
    case True
    then obtain r1 where cs: "cs = CHR ''>'' # r1" by (auto simp: peek_1_Some)
    from True have a1: "ch = CHR ''&''" and a2: "peek (CHR ''&'' # cs) 1 = Some (CHR ''>'')"
      by auto
    let ?tok = "\<lparr>kind = AMP_GT, text' = take (i + 2 - i) (ch # cs), start = i, end' = i + 2, meta = None\<rparr>"
    have "\<forall>acc. lex_loop i (ch # cs) acc = lex_loop (i + 2) (drop 1 cs) (acc @ [?tok])"
      by (simp only: lex_loop.simps(2) ns np eqTrueI [OF True] if_True if_False pushToken_def option.case prod.case simp_thms)
    then have "\<forall>acc. lex_loop i (ch # cs) acc = lex_loop (i + 2) r1 (acc @ [?tok])"
      unfolding cs by (simp del: lex_loop.simps)
    moreover have "top_level_from Top (ch # cs) = ''&>'' @ top_level_from Top r1"
      using True cs by simp
    moreover have "covers ?tok ''&>''" by (simp add: covers_def isSpace_def)
    moreover have "length r1 \<le> length cs" using cs by simp
    ultimately show ?thesis by blast
  next
    case na: False
    show ?thesis
    proof (cases "if isDigit ch then lex_fd i (ch # cs) else None")
      case (Some x)
      obtain i' rest' m where x: "x = (i', rest', m)" by (cases x)
      with Some have fd: "lex_fd i (ch # cs) = Some (i', rest', m)" by (auto split: if_splits)
      let ?tok = "\<lparr>kind = FD_GT, text' = take (i' - i) (ch # cs), start = i, end' = i', meta = Some m\<rparr>"
      have "\<forall>acc. lex_loop i (ch # cs) acc = lex_loop i' rest' (acc @ [?tok])"
        by (simp only: lex_loop.simps(2) ns np na Some x if_True if_False pushToken_def option.case prod.case simp_thms)
      moreover from lex_fd_consumed [OF fd] obtain w where w: "ch # cs = w @ rest'" "w \<noteq> []"
        "\<forall>c\<in>set w. isDigit c \<or> c = CHR ''>'' \<or> c = CHR ''&''" by blast
      have fdc: "\<forall>c\<in>set w. c \<noteq> BSL \<and> c \<noteq> SQ \<and> c \<noteq> DQ \<and> \<not> isSpace c \<and> c \<noteq> CHR ''|''"
        using w(3) fd_char_plain by blast
      then have plain: "\<forall>c\<in>set w. c \<noteq> BSL \<and> c \<noteq> SQ \<and> c \<noteq> DQ"
        by blast
      have "top_level_from Top (ch # cs) = w @ top_level_from Top rest'"
        using top_level_from_plain [OF plain] w(1) by simp
      moreover have "covers ?tok w"
        using w(2) fdc by (auto simp: covers_def)
      moreover have "length rest' \<le> length cs"
        using lex_fd_length [OF fd] by simp
      ultimately show ?thesis by blast
    next
      case None
      show ?thesis
      proof (cases "ch = CHR ''>''")
        case True
        then have nea: "ch \<noteq> CHR ''&''" by simp
        show ?thesis
        proof (cases "peek (ch # cs) 1 = Some (CHR ''>'')")
          case gg: True
          then obtain r1 where cs: "cs = CHR ''>'' # r1" by (auto simp: peek_1_Some)
          let ?tok = "\<lparr>kind = GTGT, text' = take (i + 2 - i) (ch # cs), start = i, end' = i + 2, meta = None\<rparr>"
          have "\<forall>acc. lex_loop i (ch # cs) acc = lex_loop (i + 2) (drop 1 cs) (acc @ [?tok])"
            by (simp only: lex_loop.simps(2) ns np na nea None eqTrueI [OF True] gg if_True if_False pushToken_def option.case prod.case simp_thms)
          then have "\<forall>acc. lex_loop i (ch # cs) acc = lex_loop (i + 2) r1 (acc @ [?tok])"
            unfolding cs by (simp del: lex_loop.simps)
          moreover have "top_level_from Top (ch # cs) = ''>>'' @ top_level_from Top r1"
            using True cs by simp
          moreover have "covers ?tok ''>>''" by (simp add: covers_def isSpace_def)
          moreover have "length r1 \<le> length cs" using cs by simp
          ultimately show ?thesis by blast
        next
          case gg: False
          let ?tok = "\<lparr>kind = GT, text' = take (i + 1 - i) (ch # cs), start = i, end' = i + 1, meta = None\<rparr>"
          have "\<forall>acc. lex_loop i (ch # cs) acc = lex_loop (i + 1) cs (acc @ [?tok])"
            by (simp only: lex_loop.simps(2) ns np na nea None eqTrueI [OF True] gg if_True if_False pushToken_def option.case prod.case simp_thms)
          moreover have "top_level_from Top (ch # cs) = ''>'' @ top_level_from Top cs"
            using True by simp
          moreover have "covers ?tok ''>''" by (simp add: covers_def isSpace_def)
          ultimately show ?thesis by (metis le_refl)
        qed
      next
        case ng: False
        show ?thesis
        proof (cases "ch = CHR ''<''")
          case True
          let ?tok = "\<lparr>kind = LT, text' = take (i + 1 - i) (ch # cs), start = i, end' = i + 1, meta = None\<rparr>"
          have "\<forall>acc. lex_loop i (ch # cs) acc = lex_loop (i + 1) cs (acc @ [?tok])"
            by (simp only: lex_loop.simps(2) ns np na None ng eqTrueI [OF True] if_True if_False pushToken_def option.case prod.case simp_thms)
          moreover have "top_level_from Top (ch # cs) = ''<'' @ top_level_from Top cs"
            using True by simp
          moreover have "covers ?tok ''<''" by (simp add: covers_def isSpace_def)
          ultimately show ?thesis by (metis le_refl)
        next
          case nl: False
          obtain wend rest' where sw: "scan_word i (ch # cs) = (wend, rest')"
            by (cases "scan_word i (ch # cs)")
          let ?tok = "\<lparr>kind = Word, text' = take (wend - i) (ch # cs), start = i, end' = wend, meta = None\<rparr>"
          have "\<forall>acc. lex_loop i (ch # cs) acc = lex_loop wend rest' (acc @ [?tok])"
            by (simp only: lex_loop.simps(2) ns np na None ng nl sw if_True if_False pushToken_def option.case prod.case simp_thms)
          moreover from scan_word_top [of "ch # cs" i] sw obtain w where
            w: "top_level_from Top (ch # cs) = w @ top_level_from Top rest'"
            "\<forall>c\<in>set w. \<not> isSpace c \<and> c \<noteq> CHR ''|''"
            "w = [] \<longrightarrow> snd (scan_word i (ch # cs)) = ch # cs" by auto
          have l: "length rest' \<le> length cs"
            using scan_word_progress [OF ns np nl ng na, of i] sw by simp
          have "w \<noteq> []"
          proof
            assume "w = []"
            with w(3) sw have "rest' = ch # cs" by simp
            with l show False by simp
          qed
          then have "covers ?tok w" using w(2) by (auto simp: covers_def)
          ultimately show ?thesis using w(1) l by blast
        qed
      qed
    qed
  qed
qed

text \<open>
  A token sequence covers a string of top-level characters: white space is skipped and every
  token covers its own stretch.
\<close>

inductive tokens_cover :: "Token list \<Rightarrow> string \<Rightarrow> bool" where
  cover_Nil: "tokens_cover [] []"
| cover_space: "isSpace c \<Longrightarrow> tokens_cover toks u \<Longrightarrow> tokens_cover toks (c # u)"
| cover_token: "covers tok w \<Longrightarrow> tokens_cover toks u \<Longrightarrow> tokens_cover (tok # toks) (w @ u)"

lemma isSpace_top_level: "isSpace c \<Longrightarrow> top_level_from Top (c # cs) = c # top_level_from Top cs"
  by (auto simp: isSpace_def)

lemma lex_loop_cover:
  "\<exists>toks. (\<forall>acc. lex_loop i s acc = acc @ toks) \<and> tokens_cover toks (top_level_from Top s)"
proof (induction "length s" arbitrary: s i rule: less_induct)
  case less
  show ?case
  proof (cases s)
    case Nil
    have "\<forall>acc. lex_loop i [] acc = acc @ []" by simp
    moreover have "tokens_cover [] (top_level_from Top [])" by (simp add: cover_Nil)
    ultimately show ?thesis unfolding Nil by blast
  next
    case (Cons ch cs)
    show ?thesis
    proof (cases "isSpace ch")
      case True
      from less [of cs "i + 1"] Cons obtain toks where
        t: "\<forall>acc. lex_loop (i + 1) cs acc = acc @ toks" "tokens_cover toks (top_level_from Top cs)"
        by auto
      have "\<forall>acc. lex_loop i (ch # cs) acc = acc @ toks"
        using True t(1) by simp
      moreover have "tokens_cover toks (top_level_from Top (ch # cs))"
        using True t(2) by (simp only: isSpace_top_level cover_space)
      ultimately show ?thesis unfolding Cons by blast
    next
      case False
      from lex_loop_token [OF False, of i cs] obtain tok i' rest' w where
        st: "\<forall>acc. lex_loop i (ch # cs) acc = lex_loop i' rest' (acc @ [tok])"
        "length rest' \<le> length cs"
        "top_level_from Top (ch # cs) = w @ top_level_from Top rest'" "covers tok w"
        by blast
      from less [of rest' i'] st(2) Cons obtain toks where
        t: "\<forall>acc. lex_loop i' rest' acc = acc @ toks" "tokens_cover toks (top_level_from Top rest')"
        by auto
      have "\<forall>acc. lex_loop i (ch # cs) acc = acc @ (tok # toks)"
        using st(1) t(1) by simp
      moreover have "tokens_cover (tok # toks) (top_level_from Top (ch # cs))"
        unfolding st(3) using st(4) t(2) by (rule cover_token)
      ultimately show ?thesis unfolding Cons by blast
    qed
  qed
qed

definition count_pipes :: "Token list \<Rightarrow> nat" where
  "count_pipes toks = length (filter (\<lambda>t. kind t = Pipe) toks)"

lemma tokens_cover_no_EOF: "tokens_cover toks u \<Longrightarrow> \<forall>t\<in>set toks. kind t \<noteq> EOF"
  by (induction rule: tokens_cover.induct) (auto simp: covers_def)

lemma count_list_notin: "x \<notin> set xs \<Longrightarrow> count_list xs x = 0"
  by (induction xs) auto

lemma tokens_cover_pipes: "tokens_cover toks u \<Longrightarrow> count_pipes toks = count_list u (CHR ''|'')"
proof (induction rule: tokens_cover.induct)
  case cover_Nil
  show ?case by (simp add: count_pipes_def)
next
  case (cover_space c toks u)
  then show ?case by (auto simp: isSpace_def)
next
  case (cover_token tok w toks u)
  have "count_list w (CHR ''|'') = (if kind tok = Pipe then 1 else 0)"
    using cover_token(1) by (auto simp: covers_def count_list_notin)
  with cover_token(3) show ?case
    by (simp add: count_pipes_def)
qed

lemma tokens_cover_empty: "tokens_cover toks u \<Longrightarrow> toks = [] \<longleftrightarrow> (\<forall>c\<in>set u. isSpace c)"
proof (induction rule: tokens_cover.induct)
  case cover_Nil
  show ?case by simp
next
  case (cover_space c toks u)
  then show ?case by simp
next
  case (cover_token tok w toks u)
  then have "hd w \<in> set w" and "\<not> isSpace (hd w)"
    by (simp_all add: covers_def)
  then show ?case by auto
qed

lemma tokens_cover_last:
  "tokens_cover toks u \<Longrightarrow> toks \<noteq> [] \<Longrightarrow>
     kind (last toks) = Pipe \<longleftrightarrow> last (filter (\<lambda>c. \<not> isSpace c) u) = CHR ''|''"
proof (induction rule: tokens_cover.induct)
  case cover_Nil
  then show ?case by simp
next
  case (cover_space c toks u)
  then show ?case by simp
next
  case (cover_token tok w toks u)
  have fw: "filter (\<lambda>c. \<not> isSpace c) (w @ u) = w @ filter (\<lambda>c. \<not> isSpace c) u"
    using cover_token(1) by (simp add: covers_def)
  have wne: "w \<noteq> []" using cover_token(1) by (simp add: covers_def)
  show ?case
  proof (cases "toks = []")
    case True
    with tokens_cover_empty [OF cover_token(2)] have "\<forall>c\<in>set u. isSpace c"
      by blast
    then have "filter (\<lambda>c. \<not> isSpace c) u = []" by (simp add: filter_empty_conv)
    with fw have l: "last (filter (\<lambda>c. \<not> isSpace c) (w @ u)) = last w" by simp
    have "kind tok = Pipe \<longleftrightarrow> last w = CHR ''|''"
    proof (cases "kind tok = Pipe")
      case p: True
      with cover_token(1) show ?thesis by (simp add: covers_def)
    next
      case np: False
      with cover_token(1) have "CHR ''|'' \<notin> set w" by (simp add: covers_def)
      moreover have "last w \<in> set w" using wne by simp
      ultimately show ?thesis using np by metis
    qed
    with True l show ?thesis by simp
  next
    case False
    with tokens_cover_empty [OF cover_token(2)] have "\<not> (\<forall>c\<in>set u. isSpace c)"
      by blast
    then have "filter (\<lambda>c. \<not> isSpace c) u \<noteq> []" by (simp add: filter_empty_conv)
    with fw have "last (filter (\<lambda>c. \<not> isSpace c) (w @ u)) = last (filter (\<lambda>c. \<not> isSpace c) u)"
      by simp
    with False cover_token(3) show ?thesis by simp
  qed
qed

lemma top_level_all_space:
  "(\<forall>c\<in>set (top_level_from Top s). isSpace c) \<longleftrightarrow> (\<forall>c\<in>set s. isSpace c)"
proof (induction s)
  case Nil
  show ?case by simp
next
  case (Cons c cs)
  show ?case
  proof (cases "isSpace c")
    case True
    then have "top_level_from Top (c # cs) = c # top_level_from Top cs"
      by (rule isSpace_top_level)
    with Cons True show ?thesis by (simp del: top_level_from.simps)
  next
    case False
    then show ?thesis by auto
  qed
qed

section \<open>The command loop as a recursion over the unread tokens\<close>

definition is_redir :: "Token \<Rightarrow> bool" where
  "is_redir t \<longleftrightarrow> kind t = GT \<or> kind t = GTGT \<or> kind t = LT \<or> kind t = AMP_GT \<or> kind t = FD_GT"

text \<open>The redirection that the parser records for an operator without a target word.\<close>

definition placeholder :: "Token \<Rightarrow> Redirection" where
  "placeholder t = mkRedirection t (makeWord [] (end' t)) (end' t)"

text \<open>
  \<open>cmd_run l ws rs\<close> follows \<open>parseCommand_loop\<close> on the unread tokens \<open>l\<close> and returns the
  tokens left unread. It is used to reason about the loop on token arrays that end with the
  end token, where the two agree (lemma \<open>parseCommand_loop_run\<close>).
\<close>

fun cmd_run :: "Token list \<Rightarrow> Word list \<Rightarrow> Redirection list \<Rightarrow> Token list \<times> Word list \<times> Redirection list" where
  "cmd_run [] ws rs = ([], ws, rs)"
| "cmd_run (tk # ts) ws rs =
     (if kind tk = EOF \<or> kind tk = Pipe then (tk # ts, ws, rs)
      else if kind tk = Word then cmd_run ts (ws @ [makeWord (text' tk) (start tk)]) rs
      else (case ts of
              [] \<Rightarrow> cmd_run ts ws (rs @ [placeholder tk])
            | nx # ts' \<Rightarrow>
                if kind nx = Word then
                  cmd_run ts' ws (rs @ [mkRedirection tk (makeWord (text' nx) (start nx)) (end' nx)])
                else cmd_run ts ws (rs @ [placeholder tk])))"

lemma peekTok_append: "k < length l \<Longrightarrow> peekTok (pre @ l) (length pre + k) = l ! k"
  by (simp add: peekTok_def nth_append)

lemma peekTok_append0: "l \<noteq> [] \<Longrightarrow> peekTok (pre @ l) (length pre) = hd l"
  using peekTok_append [of 0 l pre] by (simp add: hd_conv_nth)

lemma parseCommand_loop_stop:
  "kind (peekTok tokens idx) = EOF \<or> kind (peekTok tokens idx) = Pipe \<Longrightarrow>
     parseCommand_loop tokens idx ws rs = Some (idx, ws, rs)"
  by (subst parseCommand_loop.simps) (simp add: Let_def)

lemma parseCommand_loop_word:
  "kind (peekTok tokens idx) = Word \<Longrightarrow>
     parseCommand_loop tokens idx ws rs =
     parseCommand_loop tokens (idx + 1)
       (ws @ [makeWord (text' (peekTok tokens idx)) (start (peekTok tokens idx))]) rs"
  by (subst parseCommand_loop.simps) (simp add: Let_def)

lemma parseCommand_loop_no_target:
  "is_redir (peekTok tokens idx) \<Longrightarrow> kind (peekTok tokens (idx + 1)) \<noteq> Word \<Longrightarrow>
     parseCommand_loop tokens idx ws rs =
     parseCommand_loop tokens (idx + 1) ws (rs @ [placeholder (peekTok tokens idx)])"
  by (subst parseCommand_loop.simps) (auto simp: Let_def is_redir_def placeholder_def)

lemma parseCommand_loop_target:
  "is_redir (peekTok tokens idx) \<Longrightarrow> kind (peekTok tokens (idx + 1)) = Word \<Longrightarrow>
     parseCommand_loop tokens idx ws rs =
     parseCommand_loop tokens (idx + 2) ws
       (rs @ [mkRedirection (peekTok tokens idx)
                (makeWord (text' (peekTok tokens (idx + 1))) (start (peekTok tokens (idx + 1))))
                (end' (peekTok tokens (idx + 1)))])"
  by (subst parseCommand_loop.simps) (auto simp: Let_def is_redir_def)

lemma kind_cases: "kind t = EOF \<or> kind t = Pipe \<or> kind t = Word \<or> is_redir t"
  by (cases "kind t") (simp_all add: is_redir_def)

lemma parseCommand_loop_run:
  assumes "l \<noteq> []" "kind (last l) = EOF"
  shows "parseCommand_loop (pre @ l) (length pre) ws rs =
         (case cmd_run l ws rs of
            (l', ws', rs') \<Rightarrow> Some (length pre + length l - length l', ws', rs'))"
  using assms
proof (induction "length l" arbitrary: l pre ws rs rule: less_induct)
  case less
  from less(2) obtain tk ts where l: "l = tk # ts" by (cases l) auto
  have pk: "peekTok (pre @ l) (length pre) = tk"
    using peekTok_append0 [of l pre] l by simp
  consider (stop) "kind tk = EOF \<or> kind tk = Pipe" | (word) "kind tk = Word" | (redir) "is_redir tk"
    using kind_cases by blast
  then show ?case
  proof cases
    case stop
    have "parseCommand_loop (pre @ l) (length pre) ws rs = Some (length pre, ws, rs)"
      using stop pk by (simp add: parseCommand_loop_stop)
    moreover have "cmd_run l ws rs = (l, ws, rs)" using stop l by auto
    ultimately show ?thesis by simp
  next
    case word
    have tsne: "ts \<noteq> []" using less(3) l word by auto
    have lts: "kind (last ts) = EOF" using less(3) l tsne by simp
    have "parseCommand_loop (pre @ l) (length pre) ws rs =
          parseCommand_loop (pre @ l) (length pre + 1) (ws @ [makeWord (text' tk) (start tk)]) rs"
      using parseCommand_loop_word [of "pre @ l" "length pre" ws rs] word pk by simp
    also have "\<dots> = parseCommand_loop ((pre @ [tk]) @ ts) (length (pre @ [tk])) (ws @ [makeWord (text' tk) (start tk)]) rs"
      using l by simp
    also have "\<dots> = (case cmd_run ts (ws @ [makeWord (text' tk) (start tk)]) rs of
            (l', ws', rs') \<Rightarrow> Some (length (pre @ [tk]) + length ts - length l', ws', rs'))"
      using less(1) [of ts "pre @ [tk]" "ws @ [makeWord (text' tk) (start tk)]" rs] l tsne lts by (simp add: split_def)
    also have "\<dots> = (case cmd_run l ws rs of
            (l', ws', rs') \<Rightarrow> Some (length pre + length l - length l', ws', rs'))"
      using word l by (simp add: split_def)
    finally show ?thesis .
  next
    case redir
    then have nk: "kind tk \<noteq> EOF" "kind tk \<noteq> Pipe" "kind tk \<noteq> Word"
      by (auto simp: is_redir_def)
    have tsne: "ts \<noteq> []" using less(3) l nk by auto
    then obtain nx ts' where ts: "ts = nx # ts'" by (cases ts) auto
    have lts: "kind (last ts) = EOF" using less(3) l tsne by simp
    have pk1: "peekTok (pre @ l) (length pre + 1) = nx"
      using peekTok_append [of 1 l pre] l ts by simp
    show ?thesis
    proof (cases "kind nx = Word")
      case False
      have "parseCommand_loop (pre @ l) (length pre) ws rs =
            parseCommand_loop (pre @ l) (length pre + 1) ws (rs @ [placeholder tk])"
        using parseCommand_loop_no_target [of "pre @ l" "length pre" ws rs] redir pk pk1 False by simp
      also have "\<dots> = parseCommand_loop ((pre @ [tk]) @ ts) (length (pre @ [tk])) ws (rs @ [placeholder tk])"
        using l by simp
      also have "\<dots> = (case cmd_run ts ws (rs @ [placeholder tk]) of
              (l', ws', rs') \<Rightarrow> Some (length (pre @ [tk]) + length ts - length l', ws', rs'))"
        using less(1) [of ts "pre @ [tk]" ws "rs @ [placeholder tk]"] l tsne lts by (simp add: split_def)
      also have "\<dots> = (case cmd_run l ws rs of
              (l', ws', rs') \<Rightarrow> Some (length pre + length l - length l', ws', rs'))"
        using nk l ts False by (simp add: split_def)
      finally show ?thesis .
    next
      case True
      have ne2: "ts' \<noteq> []" using lts ts True by auto
      have lts': "kind (last ts') = EOF" using lts ts ne2 by simp
      let ?r = "mkRedirection tk (makeWord (text' nx) (start nx)) (end' nx)"
      have "parseCommand_loop (pre @ l) (length pre) ws rs =
            parseCommand_loop (pre @ l) (length pre + 2) ws (rs @ [?r])"
        using parseCommand_loop_target [of "pre @ l" "length pre" ws rs] redir pk pk1 True by simp
      also have "\<dots> = parseCommand_loop ((pre @ [tk, nx]) @ ts') (length (pre @ [tk, nx])) ws (rs @ [?r])"
        using l ts by simp
      also have "\<dots> = (case cmd_run ts' ws (rs @ [?r]) of
              (l', ws', rs') \<Rightarrow> Some (length (pre @ [tk, nx]) + length ts' - length l', ws', rs'))"
        using less(1) [of ts' "pre @ [tk, nx]" ws "rs @ [?r]"] l ts ne2 lts' by (simp add: split_def)
      also have "\<dots> = (case cmd_run l ws rs of
              (l', ws', rs') \<Rightarrow> Some (length pre + length l - length l', ws', rs'))"
        using nk l ts True by (simp add: split_def)
      finally show ?thesis .
    qed
  qed
qed

lemma target_mkRedirection: "target (mkRedirection t w e) = w"
  by (simp add: mkRedirection_def split: prod.splits)

lemma cmd_run_suffix:
  "cmd_run l ws rs = (l', ws', rs') \<Longrightarrow>
     \<exists>mid. l = mid @ l' \<and> (\<forall>t\<in>set mid. kind t \<noteq> Pipe \<and> kind t \<noteq> EOF)
        \<and> (l' = [] \<or> kind (hd l') = EOF \<or> kind (hd l') = Pipe)"
proof (induction l ws rs rule: cmd_run.induct)
  case (1 ws rs)
  then show ?case by simp
next
  case (2 tk ts ws rs)
  show ?case
  proof (cases "kind tk = EOF \<or> kind tk = Pipe")
    case True
    with 2(5) have "l' = tk # ts" by simp
    with True show ?thesis by (intro exI [of _ "[]"]) auto
  next
    case ns: False
    show ?thesis
    proof (cases "kind tk = Word")
      case True
      with 2(5) ns have "cmd_run ts (ws @ [makeWord (text' tk) (start tk)]) rs = (l', ws', rs')" by simp
      from 2(1) [OF ns True this] obtain mid where "ts = mid @ l'"
        "\<forall>t\<in>set mid. kind t \<noteq> Pipe \<and> kind t \<noteq> EOF"
        "l' = [] \<or> kind (hd l') = EOF \<or> kind (hd l') = Pipe" by blast
      with ns show ?thesis by (intro exI [of _ "tk # mid"]) auto
    next
      case nw: False
      show ?thesis
      proof (cases ts)
        case Nil
        with 2(5) ns nw have "l' = []" by simp
        with Nil ns show ?thesis by (intro exI [of _ "[tk]"]) auto
      next
        case (Cons nx ts')
        show ?thesis
        proof (cases "kind nx = Word")
          case True
          with 2(5) ns nw Cons have
            "cmd_run ts' ws (rs @ [mkRedirection tk (makeWord (text' nx) (start nx)) (end' nx)]) = (l', ws', rs')"
            by simp
          from 2(3) [OF ns nw Cons True this] obtain mid where "ts' = mid @ l'"
            "\<forall>t\<in>set mid. kind t \<noteq> Pipe \<and> kind t \<noteq> EOF"
            "l' = [] \<or> kind (hd l') = EOF \<or> kind (hd l') = Pipe" by blast
          with ns Cons True show ?thesis by (intro exI [of _ "tk # nx # mid"]) auto
        next
          case False
          with 2(5) ns nw Cons have "cmd_run ts ws (rs @ [placeholder tk]) = (l', ws', rs')"
            by simp
          from 2(4) [OF ns nw Cons False this] obtain mid where "ts = mid @ l'"
            "\<forall>t\<in>set mid. kind t \<noteq> Pipe \<and> kind t \<noteq> EOF"
            "l' = [] \<or> kind (hd l') = EOF \<or> kind (hd l') = Pipe" by blast
          with ns show ?thesis by (intro exI [of _ "tk # mid"]) auto
        qed
      qed
    qed
  qed
qed

text \<open>Every word and every redirection target is free of adjacent text parts.\<close>

definition merged_parts :: "Word list \<Rightarrow> Redirection list \<Rightarrow> bool" where
  "merged_parts ws rs \<longleftrightarrow>
     (\<forall>w\<in>set ws. no_adjacent_text (parts w)) \<and> (\<forall>r\<in>set rs. no_adjacent_text (parts (target r)))"

lemma makeWord_no_adjacent: "no_adjacent_text (parts (makeWord raw off))"
  by (simp add: makeWord_def splitWordIntoParts_no_adjacent)

lemma merged_parts_word: "merged_parts ws rs \<Longrightarrow> merged_parts (ws @ [makeWord raw off]) rs"
  by (simp add: merged_parts_def makeWord_no_adjacent)

lemma merged_parts_redir:
  "merged_parts ws rs \<Longrightarrow> merged_parts ws (rs @ [mkRedirection t (makeWord raw off) e])"
  by (simp add: merged_parts_def makeWord_no_adjacent target_mkRedirection)

lemma cmd_run_merged:
  "cmd_run l ws rs = (l', ws', rs') \<Longrightarrow> merged_parts ws rs \<Longrightarrow> merged_parts ws' rs'"
proof (induction l ws rs rule: cmd_run.induct)
  case (1 ws rs)
  then show ?case by simp
next
  case (2 tk ts ws rs)
  show ?case
  proof (cases "kind tk = EOF \<or> kind tk = Pipe")
    case True
    with 2(5,6) show ?thesis by simp
  next
    case ns: False
    show ?thesis
    proof (cases "kind tk = Word")
      case True
      with 2(5) ns have "cmd_run ts (ws @ [makeWord (text' tk) (start tk)]) rs = (l', ws', rs')" by simp
      from 2(1) [OF ns True this] 2(6) show ?thesis by (simp add: merged_parts_word)
    next
      case nw: False
      show ?thesis
      proof (cases ts)
        case Nil
        with 2(5) ns nw have "ws' = ws" "rs' = rs @ [placeholder tk]" by simp_all
        with 2(6) show ?thesis by (simp add: placeholder_def merged_parts_redir)
      next
        case (Cons nx ts')
        show ?thesis
        proof (cases "kind nx = Word")
          case True
          with 2(5) ns nw Cons have
            "cmd_run ts' ws (rs @ [mkRedirection tk (makeWord (text' nx) (start nx)) (end' nx)]) = (l', ws', rs')"
            by simp
          from 2(3) [OF ns nw Cons True this] 2(6) show ?thesis by (simp add: merged_parts_redir)
        next
          case False
          with 2(5) ns nw Cons have "cmd_run ts ws (rs @ [placeholder tk]) = (l', ws', rs')"
            by simp
          from 2(4) [OF ns nw Cons False this] 2(6) show ?thesis
            by (simp add: placeholder_def merged_parts_redir)
        qed
      qed
    qed
  qed
qed

lemma cmd_run_mono: "cmd_run l ws rs = (l', ws', rs') \<Longrightarrow> set rs \<subseteq> set rs'"
proof (induction l ws rs rule: cmd_run.induct)
  case (1 ws rs)
  then show ?case by simp
next
  case (2 tk ts ws rs)
  show ?case
  proof (cases "kind tk = EOF \<or> kind tk = Pipe")
    case True
    with 2(5) show ?thesis by simp
  next
    case ns: False
    show ?thesis
    proof (cases "kind tk = Word")
      case True
      with 2(5) ns have "cmd_run ts (ws @ [makeWord (text' tk) (start tk)]) rs = (l', ws', rs')" by simp
      from 2(1) [OF ns True this] show ?thesis .
    next
      case nw: False
      show ?thesis
      proof (cases ts)
        case Nil
        with 2(5) ns nw have "rs' = rs @ [placeholder tk]" by simp
        then show ?thesis by auto
      next
        case (Cons nx ts')
        show ?thesis
        proof (cases "kind nx = Word")
          case True
          with 2(5) ns nw Cons have
            "cmd_run ts' ws (rs @ [mkRedirection tk (makeWord (text' nx) (start nx)) (end' nx)]) = (l', ws', rs')"
            by simp
          from 2(3) [OF ns nw Cons True this] show ?thesis by simp
        next
          case False
          with 2(5) ns nw Cons have "cmd_run ts ws (rs @ [placeholder tk]) = (l', ws', rs')"
            by simp
          from 2(4) [OF ns nw Cons False this] show ?thesis by simp
        qed
      qed
    qed
  qed
qed

text \<open>
  The redirection operators of a token sequence that are followed by no word token: the next
  token is not a word, or there is no next token.
\<close>

fun dangling :: "Token list \<Rightarrow> Token list" where
  "dangling [] = []"
| "dangling [t] = (if is_redir t then [t] else [])"
| "dangling (t # nx # ts) = (if is_redir t \<and> kind nx \<noteq> Word then [t] else []) @ dangling (nx # ts)"

lemma dangling_not_redir: "\<not> is_redir t \<Longrightarrow> dangling (t # ts) = dangling ts"
  by (cases ts) simp_all

lemma cmd_run_dangling:
  "cmd_run l ws rs = (l', ws', rs') \<Longrightarrow>
     placeholder ` set (dangling l) \<subseteq> set rs' \<union> placeholder ` set (dangling l')"
proof (induction l ws rs rule: cmd_run.induct)
  case (1 ws rs)
  then show ?case by simp
next
  case (2 tk ts ws rs)
  show ?case
  proof (cases "kind tk = EOF \<or> kind tk = Pipe")
    case True
    with 2(5) have "l' = tk # ts" by simp
    then show ?thesis by blast
  next
    case ns: False
    show ?thesis
    proof (cases "kind tk = Word")
      case True
      then have "\<not> is_redir tk" by (simp add: is_redir_def)
      then have d: "dangling (tk # ts) = dangling ts" by (rule dangling_not_redir)
      from True 2(5) ns have "cmd_run ts (ws @ [makeWord (text' tk) (start tk)]) rs = (l', ws', rs')" by simp
      from 2(1) [OF ns True this] d show ?thesis by simp
    next
      case nw: False
      show ?thesis
      proof (cases ts)
        case Nil
        with 2(5) ns nw have "rs' = rs @ [placeholder tk]" by simp
        with Nil show ?thesis by auto
      next
        case (Cons nx ts')
        show ?thesis
        proof (cases "kind nx = Word")
          case True
          then have "\<not> is_redir nx" by (simp add: is_redir_def)
          then have "dangling (nx # ts') = dangling ts'" by (rule dangling_not_redir)
          with True Cons have d: "dangling (tk # ts) = dangling ts'" by simp
          from 2(5) ns nw Cons True have
            "cmd_run ts' ws (rs @ [mkRedirection tk (makeWord (text' nx) (start nx)) (end' nx)]) = (l', ws', rs')"
            by simp
          from 2(3) [OF ns nw Cons True this] d show ?thesis by simp
        next
          case False
          with 2(5) ns nw Cons have run: "cmd_run ts ws (rs @ [placeholder tk]) = (l', ws', rs')"
            by simp
          from cmd_run_mono [OF run] have "placeholder tk \<in> set rs'" by auto
          moreover have "set (dangling (tk # ts)) \<subseteq> insert tk (set (dangling ts))"
            using Cons by auto
          ultimately show ?thesis
            using 2(4) [OF ns nw Cons False run] by auto
        qed
      qed
    qed
  qed
qed

section \<open>The pipeline loop\<close>

lemma parseCommand_run:
  assumes "l \<noteq> []" "kind (last l) = EOF" "cmd_run l [] [] = (l', ws', rs')"
  shows "\<exists>sp. parseCommand (pre @ l) (length pre) =
           Some (\<lparr>words = ws', redirections = rs', cspan = sp\<rparr>, length pre + length l - length l')"
  using parseCommand_loop_run [OF assms(1,2), of pre "[]" "[]"] assms(3)
  by (simp add: parseCommand_def Let_def)

lemma parse_loop_eof:
  "kind (peekTok tokens idx) = EOF \<Longrightarrow> parse_loop tokens idx cs = Some (idx, cs)"
  by (subst parse_loop.simps) simp

lemma parse_loop_cmd:
  "kind (peekTok tokens idx) \<noteq> EOF \<Longrightarrow> parseCommand tokens idx = Some (cmd, idx') \<Longrightarrow>
     parse_loop tokens idx cs =
       (if kind (peekTok tokens idx') = Pipe then parse_loop tokens (idx' + 1) (cs @ [cmd])
        else Some (idx', cs @ [cmd]))"
  by (subst parse_loop.simps) simp

text \<open>
  The number of commands that the pipeline loop builds from the tokens before the end token:
  none for no token; otherwise one more than the pipe tokens, except that a pipe token in last
  position starts no further command.
\<close>

definition n_cmds :: "Token list \<Rightarrow> nat" where
  "n_cmds r = (if r = [] then 0 else count_pipes r + (if kind (last r) = Pipe then 0 else 1))"

lemma count_pipes_none: "\<forall>t\<in>set r. kind t \<noteq> Pipe \<Longrightarrow> count_pipes r = 0"
  by (simp add: count_pipes_def)

lemma n_cmds_no_pipe: "r \<noteq> [] \<Longrightarrow> \<forall>t\<in>set r. kind t \<noteq> Pipe \<Longrightarrow> n_cmds r = 1"
  by (simp add: n_cmds_def count_pipes_none)

lemma n_cmds_pipe:
  "\<forall>t\<in>set mid. kind t \<noteq> Pipe \<Longrightarrow> kind h = Pipe \<Longrightarrow> n_cmds (mid @ h # r2) = 1 + n_cmds r2"
  by (simp add: n_cmds_def count_pipes_def)

lemma parse_loop_run:
  assumes e: "kind e = EOF" and r: "\<forall>t\<in>set r. kind t \<noteq> EOF"
  shows "\<exists>cs'. parse_loop (pre @ r @ [e]) (length pre) cs = Some (length pre + length r, cs @ cs')
      \<and> length cs' = n_cmds r
      \<and> (\<forall>c\<in>set cs'. merged_parts (words c) (redirections c))
      \<and> (\<forall>t\<in>set (dangling (r @ [e])). \<exists>c\<in>set cs'. placeholder t \<in> set (redirections c))"
  using r
proof (induction "length r" arbitrary: r pre cs rule: less_induct)
  case less
  have ne: "\<not> is_redir e" using e by (simp add: is_redir_def)
  show ?case
  proof (cases r)
    case Nil
    have "peekTok (pre @ [e]) (length pre) = e"
      using peekTok_append0 [of "[e]" pre] by simp
    then have "parse_loop (pre @ [e]) (length pre) cs = Some (length pre, cs)"
      using e by (simp add: parse_loop_eof)
    then show ?thesis using Nil ne by (simp add: n_cmds_def)
  next
    case (Cons tk ts)
    define l where "l = r @ [e]"
    have lne: "l \<noteq> []" and ll: "kind (last l) = EOF" using e by (simp_all add: l_def)
    have pk: "peekTok (pre @ l) (length pre) = tk"
      using peekTok_append0 [of l pre] Cons by (simp add: l_def)
    have tk: "kind tk \<noteq> EOF" using less(2) Cons by simp
    obtain l' ws' rs' where run: "cmd_run l [] [] = (l', ws', rs')"
      by (cases "cmd_run l [] []")
    from parseCommand_run [OF lne ll run, of pre] obtain sp where
      pc: "parseCommand (pre @ l) (length pre) =
             Some (\<lparr>words = ws', redirections = rs', cspan = sp\<rparr>, length pre + length l - length l')"
      by blast
    let ?cmd = "\<lparr>words = ws', redirections = rs', cspan = sp\<rparr>"
    from cmd_run_suffix [OF run] obtain mid where
      mid: "l = mid @ l'" "\<forall>t\<in>set mid. kind t \<noteq> Pipe \<and> kind t \<noteq> EOF"
      "l' = [] \<or> kind (hd l') = EOF \<or> kind (hd l') = Pipe" by blast
    have "l' \<noteq> []"
    proof
      assume "l' = []"
      with mid(1) have "e \<in> set mid" by (simp add: l_def [symmetric]) (metis l_def in_set_conv_decomp)
      with mid(2) e show False by auto
    qed
    then obtain h l2 where l': "l' = h # l2" by (cases l') auto
    with mid(3) have h: "kind h = EOF \<or> kind h = Pipe" by simp
    have idx: "length pre + length l - length l' = length pre + length mid"
      using mid(1) by simp
    have pkh: "peekTok (pre @ l) (length pre + length mid) = h"
      using peekTok_append [of "length mid" l pre] mid(1) l' by simp
    have good: "merged_parts ws' rs'"
      using cmd_run_merged [OF run] by (simp add: merged_parts_def)
    have dang: "placeholder ` set (dangling l) \<subseteq> set rs' \<union> placeholder ` set (dangling l')"
      using cmd_run_dangling [OF run] .
    have step: "parse_loop (pre @ l) (length pre) cs =
        (if kind h = Pipe then parse_loop (pre @ l) (length pre + length mid + 1) (cs @ [?cmd])
         else Some (length pre + length mid, cs @ [?cmd]))"
      using parse_loop_cmd [of "pre @ l" "length pre" ?cmd "length pre + length mid" cs] pk tk pc idx pkh
      by simp
    show ?thesis
    proof (cases "kind h = Pipe")
      case False
      with h have he: "kind h = EOF" by simp
      have "l2 = []"
      proof (rule ccontr)
        assume "l2 \<noteq> []"
        then have "h \<in> set (butlast l)" using mid(1) l' by (simp add: butlast_append)
        then have "h \<in> set r" by (simp add: l_def)
        with less(2) he show False by auto
      qed
      with mid(1) l' have "r @ [e] = mid @ [h]" by (simp add: l_def)
      then have rm: "r = mid" by simp
      have "parse_loop (pre @ r @ [e]) (length pre) cs = Some (length pre + length r, cs @ [?cmd])"
        using step False rm by (simp add: l_def)
      moreover have "length [?cmd] = n_cmds r"
        using n_cmds_no_pipe [of r] Cons rm mid(2) by simp
      moreover have "\<forall>c\<in>set [?cmd]. merged_parts (words c) (redirections c)"
        using good by simp
      moreover have "\<forall>t\<in>set (dangling (r @ [e])). \<exists>c\<in>set [?cmd]. placeholder t \<in> set (redirections c)"
      proof
        fix t assume "t \<in> set (dangling (r @ [e]))"
        then have "placeholder t \<in> set rs' \<union> placeholder ` set (dangling l')"
          using dang by (auto simp: l_def)
        moreover have "dangling l' = []" using l' \<open>l2 = []\<close> he by (simp add: is_redir_def)
        ultimately show "\<exists>c\<in>set [?cmd]. placeholder t \<in> set (redirections c)" by simp
      qed
      ultimately show ?thesis by blast
    next
      case True
      then have hne: "h \<noteq> e" using e by auto
      have "l2 \<noteq> []"
      proof
        assume "l2 = []"
        with mid(1) l' have "last l = h" by simp
        then show False using hne by (simp add: l_def)
      qed
      then obtain r2 where r2: "l2 = r2 @ [last l2]" by (metis append_butlast_last_id)
      have "last l2 = e" using mid(1) l' \<open>l2 \<noteq> []\<close> by (metis l_def last_appendR last_snoc last_ConsR list.distinct(1))
      with r2 have l2: "l2 = r2 @ [e]" by simp
      with mid(1) l' have "r @ [e] = (mid @ h # r2) @ [e]" by (simp add: l_def)
      then have rr: "r = mid @ h # r2" by simp
      have r2ok: "\<forall>t\<in>set r2. kind t \<noteq> EOF" using less(2) rr by simp
      have lt: "length r2 < length r" using rr by simp
      from less(1) [OF lt r2ok, of "pre @ mid @ [h]" "cs @ [?cmd]"] obtain cs2 where
        cs2: "parse_loop ((pre @ mid @ [h]) @ r2 @ [e]) (length (pre @ mid @ [h])) (cs @ [?cmd]) =
                Some (length (pre @ mid @ [h]) + length r2, (cs @ [?cmd]) @ cs2)"
        "length cs2 = n_cmds r2"
        "\<forall>c\<in>set cs2. merged_parts (words c) (redirections c)"
        "\<forall>t\<in>set (dangling (r2 @ [e])). \<exists>c\<in>set cs2. placeholder t \<in> set (redirections c)"
        by blast
      have tok: "(pre @ mid @ [h]) @ r2 @ [e] = pre @ l" using mid(1) l' l2 by simp
      have "parse_loop (pre @ r @ [e]) (length pre) cs = Some (length pre + length r, cs @ (?cmd # cs2))"
        using step True cs2(1) tok rr by (simp add: l_def)
      moreover have "length (?cmd # cs2) = n_cmds r"
        using n_cmds_pipe [of mid h r2] mid(2) True cs2(2) rr by simp
      moreover have "\<forall>c\<in>set (?cmd # cs2). merged_parts (words c) (redirections c)"
        using good cs2(3) by simp
      moreover have "\<forall>t\<in>set (dangling (r @ [e])). \<exists>c\<in>set (?cmd # cs2). placeholder t \<in> set (redirections c)"
      proof
        fix t assume "t \<in> set (dangling (r @ [e]))"
        then have "placeholder t \<in> set rs' \<union> placeholder ` set (dangling l')"
          using dang by (auto simp: l_def)
        moreover have "dangling l' = dangling (r2 @ [e])"
          using l' l2 True dangling_not_redir [of h "r2 @ [e]"] by (simp add: is_redir_def)
        ultimately consider "placeholder t \<in> set rs'"
          | t' where "t' \<in> set (dangling (r2 @ [e]))" "placeholder t = placeholder t'" by auto
        then show "\<exists>c\<in>set (?cmd # cs2). placeholder t \<in> set (redirections c)"
        proof cases
          case 1
          then show ?thesis by simp
        next
          case 2
          with cs2(4) show ?thesis by auto
        qed
      qed
      ultimately show ?thesis by blast
    qed
  qed
qed

section \<open>Lexing and parsing an input\<close>

definition eofToken :: "nat \<Rightarrow> Token" where
  "eofToken N = \<lparr>kind = EOF, text' = [], start = N, end' = N, meta = None\<rparr>"

lemma lex_eq: "lex_input input = lex_loop 0 input [] @ [eofToken (length input)]"
  by (simp add: lex_input_def pushToken_def eofToken_def Let_def)

lemma lex_tokens:
  "\<exists>toks. lex_input input = toks @ [eofToken (length input)] \<and> tokens_cover toks (top_level input)"
proof -
  from lex_loop_cover [of 0 input] obtain toks where
    t: "\<forall>acc. lex_loop 0 input acc = acc @ toks" "tokens_cover toks (top_level_from Top input)"
    by blast
  from t(1) have "lex_loop 0 input [] = toks" by simp
  then have "lex_input input = toks @ [eofToken (length input)]" by (simp add: lex_eq)
  with t(2) show ?thesis by (auto simp: top_level_def)
qed

lemma parse_summary:
  "\<exists>toks cs sp. lex_input input = toks @ [eofToken (length input)] \<and> tokens_cover toks (top_level input)
     \<and> parse input = Some \<lparr>commands = cs, pspan = sp\<rparr>
     \<and> length cs = n_cmds toks
     \<and> (\<forall>c\<in>set cs. merged_parts (words c) (redirections c))
     \<and> (\<forall>t\<in>set (dangling (lex_input input)). \<exists>c\<in>set cs. placeholder t \<in> set (redirections c))"
proof -
  from lex_tokens [of input] obtain toks where
    l: "lex_input input = toks @ [eofToken (length input)]" and c: "tokens_cover toks (top_level input)"
    by blast
  have e: "kind (eofToken (length input)) = EOF" by (simp add: eofToken_def)
  have r: "\<forall>t\<in>set toks. kind t \<noteq> EOF" using c by (rule tokens_cover_no_EOF)
  from parse_loop_run [OF e r, of "[]" "[]"] obtain cs where
    cs: "parse_loop (toks @ [eofToken (length input)]) 0 [] = Some (length toks, cs)"
    "length cs = n_cmds toks"
    "\<forall>c\<in>set cs. merged_parts (words c) (redirections c)"
    "\<forall>t\<in>set (dangling (toks @ [eofToken (length input)])). \<exists>c\<in>set cs. placeholder t \<in> set (redirections c)"
    by auto
  have "parse input = Some \<lparr>commands = cs,
      pspan = makeSpan 0 (end' (peekTok (toks @ [eofToken (length input)]) (length toks)))\<rparr>"
    using cs(1) l by (simp add: parse_def Let_def)
  with l c cs(2,3,4) show ?thesis by auto
qed

lemma n_cmds_pos: "r \<noteq> [] \<Longrightarrow> 1 \<le> n_cmds r"
proof -
  assume r: "r \<noteq> []"
  show ?thesis
  proof (cases "kind (last r) = Pipe")
    case True
    have "last r \<in> set r" using r by simp
    with True have "filter (\<lambda>t. kind t = Pipe) r \<noteq> []" by (auto simp: filter_empty_conv)
    then have "1 \<le> count_pipes r" by (cases "filter (\<lambda>t. kind t = Pipe) r") (simp_all add: count_pipes_def)
    with r True show ?thesis by (simp add: n_cmds_def)
  next
    case False
    with r show ?thesis by (simp add: n_cmds_def)
  qed
qed


text \<open>The specification's notions of the claim about the number of commands.\<close>

definition top_level_pipes :: "string \<Rightarrow> nat" where
  "top_level_pipes input = count_list (top_level input) (CHR ''|'')"

definition has_top_level_nonspace :: "string \<Rightarrow> bool" where
  "has_top_level_nonspace input \<longleftrightarrow> (\<exists>c\<in>set (top_level input). \<not> isSpace c)"

text \<open>The last top-level character that is not white space is a pipe: a trailing pipe.\<close>

definition ends_with_top_level_pipe :: "string \<Rightarrow> bool" where
  "ends_with_top_level_pipe input \<longleftrightarrow>
     (let u = filter (\<lambda>c. \<not> isSpace c) (top_level input) in u \<noteq> [] \<and> last u = CHR ''|'')"

lemma n_cmds_top_level:
  assumes "tokens_cover toks (top_level input)" "has_top_level_nonspace input"
  shows "n_cmds toks = top_level_pipes input + (if ends_with_top_level_pipe input then 0 else 1)"
proof -
  from assms have ne: "toks \<noteq> []"
    using tokens_cover_empty [OF assms(1)] by (auto simp: has_top_level_nonspace_def)
  have u: "filter (\<lambda>c. \<not> isSpace c) (top_level input) \<noteq> []"
    using assms(2) by (auto simp: has_top_level_nonspace_def filter_empty_conv)
  have "kind (last toks) = Pipe \<longleftrightarrow> ends_with_top_level_pipe input"
    using tokens_cover_last [OF assms(1) ne] u by (simp add: ends_with_top_level_pipe_def Let_def)
  moreover have "count_pipes toks = top_level_pipes input"
    using tokens_cover_pipes [OF assms(1)] by (simp add: top_level_pipes_def)
  ultimately show ?thesis using ne by (simp add: n_cmds_def)
qed

section \<open>A single-quoted word\<close>

lemma scan_quoted_SQ_close:
  "SQ \<notin> set s \<Longrightarrow> scan_quoted SQ i (s @ SQ # rest) = (i + length s + 1, rest)"
  by (induction s arbitrary: i) auto

lemma scan_word_single_quoted:
  assumes "SQ \<notin> set s"
  shows "scan_word i (SQ # s @ [SQ]) = (i + length s + 2, [])"
proof -
  have "scan_word i (SQ # s @ [SQ]) = (case scan_quoted SQ (i + 1) (s @ [SQ]) of (i', rest') \<Rightarrow> scan_word i' rest')"
    by (simp add: isSpace_def peek_def)
  also have "scan_quoted SQ (i + 1) (s @ [SQ]) = (i + 1 + length s + 1, [])"
    using scan_quoted_SQ_close [OF assms, of "i + 1" "[]"] by simp
  finally show ?thesis by simp
qed

lemma lex_single_quoted:
  assumes "SQ \<notin> set s"
  shows "lex_input (SQ # s @ [SQ]) =
    [\<lparr>kind = Word, text' = SQ # s @ [SQ], start = 0, end' = length s + 2, meta = None\<rparr>,
     eofToken (length s + 2)]"
proof -
  have nd: "\<not> isDigit SQ" by (simp add: isDigit_def)
  have "lex_loop 0 (SQ # s @ [SQ]) [] =
     (case scan_word 0 (SQ # s @ [SQ]) of
        (wend, rest') \<Rightarrow> lex_loop wend rest' (pushToken [] (SQ # s @ [SQ]) Word 0 wend None))"
    by (subst lex_loop.simps(2)) (simp add: isSpace_def peek_def nd del: scan_word.simps lex_loop.simps)
  also have "\<dots> = [\<lparr>kind = Word, text' = SQ # s @ [SQ], start = 0, end' = length s + 2, meta = None\<rparr>]"
    using scan_word_single_quoted [OF assms, of 0] by (simp add: pushToken_def del: scan_word.simps)
  finally show ?thesis by (simp add: lex_eq del: lex_loop.simps)
qed

lemma takeWhile_neq: "q \<notin> set s \<Longrightarrow> takeWhile (\<lambda>c. c \<noteq> q) (s @ q # r) = s"
  by (induction s) auto

lemma dropWhile_neq: "q \<notin> set s \<Longrightarrow> dropWhile (\<lambda>c. c \<noteq> q) (s @ q # r) = q # r"
  by (induction s) auto

lemma split_single_quoted:
  assumes "SQ \<notin> set s"
  shows "splitWordIntoParts (SQ # s @ [SQ]) b = (if s = [] then [] else [Text s (makeSpan (b + 1) (b + (1 + length s)))])"
proof -
  have t: "takeWhile (\<lambda>c. c \<noteq> SQ) (s @ [SQ]) = s"
    using assms by (rule takeWhile_neq)
  have d: "dropWhile (\<lambda>c. c \<noteq> SQ) (s @ [SQ]) = [SQ]"
    using assms by (rule dropWhile_neq)
  have "split_loop b [] 0 (SQ # s @ [SQ]) = pushText [] b s 1 (1 + length s)"
    by (simp add: Let_def t d peek_def)
  then show ?thesis
    by (simp add: splitWordIntoParts_def pushText_def merge_step_def)
qed

lemma parse_one_word:
  assumes "lex_input input = [tk, e]" "kind tk = Word" "kind e = EOF"
  shows "\<exists>sp sp'. parse input =
     Some \<lparr>commands = [\<lparr>words = [makeWord (text' tk) (start tk)], redirections = [], cspan = sp\<rparr>], pspan = sp'\<rparr>"
proof -
  have run: "cmd_run [tk, e] [] [] = ([e], [makeWord (text' tk) (start tk)], [])"
    using assms(2,3) by simp
  from parseCommand_run [of "[tk, e]" "[e]" "[makeWord (text' tk) (start tk)]" "[]" "[]"] run assms(3)
  obtain sp where pc: "parseCommand [tk, e] 0 =
      Some (\<lparr>words = [makeWord (text' tk) (start tk)], redirections = [], cspan = sp\<rparr>, 1)"
    by auto
  have p0: "kind (peekTok [tk, e] 0) \<noteq> EOF" using assms(2) by (simp add: peekTok_def)
  have p1: "kind (peekTok [tk, e] 1) \<noteq> Pipe" using assms(3) by (simp add: peekTok_def)
  have "parse_loop [tk, e] 0 [] =
      Some (1, [\<lparr>words = [makeWord (text' tk) (start tk)], redirections = [], cspan = sp\<rparr>])"
    using parse_loop_cmd [OF p0 pc, of "[]"] p1 by simp
  then show ?thesis using assms(1) by (simp add: parse_def Let_def)
qed

lemma parse_a_out_parts:
  "map_option (map (\<lambda>c. map (\<lambda>r. (op r, fd r, parts (target r))) (redirections c)) \<circ> commands)
     (parse ''a > out.txt'') = Some [[(Some ''>'', None, [Text ''out.txt'' (makeSpan 4 11)])]]"
  by code_simp

section \<open>The claims\<close>

subsection \<open>The number of commands\<close>

text \<open>
  Claim C1, as amended. For every input with at least one character at top level that is not
  white space, \<open>parse\<close> returns a pipeline, and the number of its commands is the number of
  top-level \<^verbatim>\<open>|\<close> characters plus one, except that for a trailing pipe (the last top-level
  character that is not white space is a \<^verbatim>\<open>|\<close>) it is the number of top-level \<^verbatim>\<open>|\<close>
  characters: the loop \<^verbatim>\<open>while (peekTok().kind !== TokenKind.EOF)\<close> starts no command at the
  end of the input.
\<close>

theorem parse_command_count:
  assumes "has_top_level_nonspace input"
  shows "\<exists>p. parse input = Some p \<and>
    length (commands p) = top_level_pipes input + (if ends_with_top_level_pipe input then 0 else 1)"
proof -
  from parse_summary [of input] obtain toks cs sp where
    "tokens_cover toks (top_level input)" "parse input = Some \<lparr>commands = cs, pspan = sp\<rparr>"
    "length cs = n_cmds toks" by blast
  with n_cmds_top_level [OF this(1) assms] show ?thesis by simp
qed

text \<open>
  The theorem at the input \<^verbatim>\<open>a '|' | b\<close>: the quoted pipe is not at top level, one pipe is,
  and there are two commands.
\<close>

theorem parse_command_count_witness:
  "has_top_level_nonspace (''a '' @ [SQ] @ ''|'' @ [SQ] @ '' | b'')
   \<and> top_level_pipes (''a '' @ [SQ] @ ''|'' @ [SQ] @ '' | b'') = 1
   \<and> \<not> ends_with_top_level_pipe (''a '' @ [SQ] @ ''|'' @ [SQ] @ '' | b'')
   \<and> (\<exists>p. parse (''a '' @ [SQ] @ ''|'' @ [SQ] @ '' | b'') = Some p \<and> length (commands p) = 2)"
proof -
  have h: "has_top_level_nonspace (''a '' @ [SQ] @ ''|'' @ [SQ] @ '' | b'')"
    by code_simp
  have t: "top_level_pipes (''a '' @ [SQ] @ ''|'' @ [SQ] @ '' | b'') = 1"
    by code_simp
  have e: "\<not> ends_with_top_level_pipe (''a '' @ [SQ] @ ''|'' @ [SQ] @ '' | b'')"
    by code_simp
  from parse_command_count [OF h] obtain p where
    "parse (''a '' @ [SQ] @ ''|'' @ [SQ] @ '' | b'') = Some p"
    "length (commands p) = top_level_pipes (''a '' @ [SQ] @ ''|'' @ [SQ] @ '' | b'')
       + (if ends_with_top_level_pipe (''a '' @ [SQ] @ ''|'' @ [SQ] @ '' | b'') then 0 else 1)"
    by blast
  with h t e show ?thesis by simp
qed

text \<open>
  Claim C1 as stated fails for a trailing pipe: the input \<^verbatim>\<open>a |\<close> has a top-level character
  that is not white space and one top-level \<^verbatim>\<open>|\<close>, and \<open>parse\<close> returns one command, not two.
\<close>

theorem parse_command_count_trailing_pipe:
  "has_top_level_nonspace ''a |'' \<and> top_level_pipes ''a |'' = 1
   \<and> map_option (length \<circ> commands) (parse ''a |'') = Some 1
   \<and> map_option (length \<circ> commands) (parse ''a |'') \<noteq> Some (top_level_pipes ''a |'' + 1)"
  by code_simp

text \<open>
  Claim C2, as amended. \<open>parse\<close> returns a pipeline for every input, and the pipeline has at least
  one command exactly when the input has a character that is not white space: for the empty
  input and for white space alone the loop of \<^verbatim>\<open>parse\<close> is not entered and \<^verbatim>\<open>commands\<close> is empty.
\<close>

theorem parse_commands_nonempty_iff:
  "\<exists>p. parse input = Some p \<and> (1 \<le> length (commands p) \<longleftrightarrow> (\<exists>c\<in>set input. \<not> isSpace c))"
proof -
  from parse_summary [of input] obtain toks cs sp where
    s: "tokens_cover toks (top_level input)" "parse input = Some \<lparr>commands = cs, pspan = sp\<rparr>"
    "length cs = n_cmds toks" by blast
  have "toks = [] \<longleftrightarrow> (\<forall>c\<in>set input. isSpace c)"
    using tokens_cover_empty [OF s(1)] top_level_all_space [of input] by (simp add: top_level_def)
  moreover have "1 \<le> n_cmds toks \<longleftrightarrow> toks \<noteq> []"
    using n_cmds_pos [of toks] by (auto simp: n_cmds_def)
  ultimately show ?thesis using s(2,3) by auto
qed

theorem parse_commands_nonempty_iff_witness:
  "(\<exists>c\<in>set ''ls -l''. \<not> isSpace c) \<and> (\<exists>p. parse ''ls -l'' = Some p \<and> 1 \<le> length (commands p))
   \<and> \<not> (\<exists>c\<in>set ''  ''. \<not> isSpace c) \<and> (\<exists>p. parse ''  '' = Some p \<and> length (commands p) = 0)"
proof -
  have a: "\<exists>c\<in>set ''ls -l''. \<not> isSpace c" by (simp add: isSpace_def)
  have b: "\<not> (\<exists>c\<in>set ''  ''. \<not> isSpace c)" by (simp add: isSpace_def)
  from parse_commands_nonempty_iff [of "''ls -l''"] a
  have 1: "\<exists>p. parse ''ls -l'' = Some p \<and> 1 \<le> length (commands p)" by blast
  from parse_commands_nonempty_iff [of "''  ''"] b
  obtain p where "parse ''  '' = Some p" "\<not> 1 \<le> length (commands p)" by blast
  then have 2: "\<exists>p. parse ''  '' = Some p \<and> length (commands p) = 0"
    by (cases "commands p") simp_all
  from a b 1 2 show ?thesis by blast
qed

text \<open>Claim C2 as stated fails at the empty input: the pipeline returned has no command.\<close>

theorem parse_empty_input_no_commands:
  "map_option (length \<circ> commands) (parse []) = Some 0"
  by code_simp

subsection \<open>Redirections\<close>

text \<open>
  Claim C3, as amended. Parsing \<^verbatim>\<open>a > out.txt\<close> yields a pipeline with one command that has
  exactly one redirection, with \<^verbatim>\<open>op\<close> \<^verbatim>\<open>'>'\<close>, with \<^verbatim>\<open>fd\<close> left undefined (the parser records a
  descriptor only for an operator with a numeric prefix), and with a target word that expands
  to \<^verbatim>\<open>out.txt\<close> in every context.
\<close>

theorem parse_redirect_out:
  "map_option (map (\<lambda>c. map (\<lambda>r. (op r, fd r, expandWord str (target r) ctx)) (redirections c)) \<circ> commands)
     (parse ''a > out.txt'') = Some [[(Some ''>'', None, ''out.txt'')]]"
proof -
  from parse_a_out_parts obtain p where p: "parse ''a > out.txt'' = Some p"
    and c: "map (\<lambda>c. map (\<lambda>r. (op r, fd r, parts (target r))) (redirections c)) (commands p)
       = [[(Some ''>'', None, [Text ''out.txt'' (makeSpan 4 11)])]]"
    by auto
  from c obtain cmd where cmd: "commands p = [cmd]"
    and r: "map (\<lambda>r. (op r, fd r, parts (target r))) (redirections cmd) = [(Some ''>'', None, [Text ''out.txt'' (makeSpan 4 11)])]"
    by auto
  from r obtain x where x: "redirections cmd = [x]" "op x = Some ''>''" "fd x = None"
    "parts (target x) = [Text ''out.txt'' (makeSpan 4 11)]"
    by auto
  have "expandWord str (target x) ctx = ''out.txt''"
    using x(4) by (simp add: expandWord_concat part_contribution_def)
  with p cmd x show ?thesis by simp
qed

text \<open>
  Claim C3 as stated fails: the \<^verbatim>\<open>fd\<close> of the redirection of \<^verbatim>\<open>a > out.txt\<close> is undefined, not 1.
\<close>

theorem parse_redirect_out_fd_unset:
  "map_option (map (map fd \<circ> redirections) \<circ> commands) (parse ''a > out.txt'') = Some [[None]]
   \<and> map_option (map (map fd \<circ> redirections) \<circ> commands) (parse ''a > out.txt'') \<noteq> Some [[Some 1]]"
  by code_simp

text \<open>
  Claim C4. Parsing \<^verbatim>\<open>cat f 2>&1\<close> yields a pipeline with exactly one command, which has exactly
  one redirection, with \<^verbatim>\<open>op\<close> \<^verbatim>\<open>'dup'\<close>, \<^verbatim>\<open>fd\<close> 2 and \<^verbatim>\<open>dupTargetFd\<close> 1.
\<close>

theorem parse_dup_redirection:
  "map_option (map (\<lambda>c. map (\<lambda>r. (op r, fd r, dupTargetFd r)) (redirections c)) \<circ> commands)
     (parse ''cat f 2>&1'') = Some [[(Some ''dup'', Some 2, Some (Some 1))]]"
  by code_simp

subsection \<open>Expansion\<close>


text \<open>
  Claim C6. For every text \<open>s\<close> without a single quote and every context, parsing the
  single-quoted input \<^verbatim>\<open>'s'\<close> gives one command with one word, and that word expands to \<open>s\<close>
  itself: nothing between the quotes is read as an escape or as a variable.
\<close>

theorem single_quoted_literal:
  assumes "SQ \<notin> set s"
  shows "map_option (map (\<lambda>c. buildArgv str c ctx) \<circ> commands) (parse (SQ # s @ [SQ])) = Some [[s]]"
proof -
  let ?tk = "\<lparr>kind = Word, text' = SQ # s @ [SQ], start = 0, end' = length s + 2, meta = None\<rparr>"
  from parse_one_word [of "SQ # s @ [SQ]" ?tk "eofToken (length s + 2)"] lex_single_quoted [OF assms]
  obtain sp sp' where
    "parse (SQ # s @ [SQ]) = Some \<lparr>commands = [\<lparr>words = [makeWord (SQ # s @ [SQ]) 0], redirections = [], cspan = sp\<rparr>], pspan = sp'\<rparr>"
    by (auto simp: eofToken_def)
  moreover have "expandWord str (makeWord (SQ # s @ [SQ]) 0) ctx = s"
    using split_single_quoted [OF assms, of 0]
    by (simp add: expandWord_concat makeWord_def part_contribution_def)
  ultimately show ?thesis by (simp add: buildArgv_def)
qed

text \<open>The theorem at the input \<^verbatim>\<open>'$X'\<close> with the context \<^verbatim>\<open>{X: "y"}\<close>.\<close>

theorem single_quoted_literal_witness:
  "SQ \<notin> set ''$X'' \<and>
   map_option (map (\<lambda>c. buildArgv (\<lambda>u::unit. ''u'') c [''X'' \<mapsto> Str ''y'']) \<circ> commands)
     (parse (SQ # ''$X'' @ [SQ])) = Some [[''$X'']]"
proof -
  have h: "SQ \<notin> set ''$X''" by simp
  from single_quoted_literal [OF h] h show ?thesis by blast
qed

subsection \<open>Word parts\<close>

text \<open>
  Claim C7. No two adjacent parts of a result of \<open>splitWordIntoParts\<close> are both text parts, and
  so it is for every word and every redirection target of the pipeline that \<open>parse\<close> returns.
\<close>

theorem no_adjacent_text_parts:
  "no_adjacent_text (splitWordIntoParts raw baseOffset) \<and>
   (\<exists>p. parse input = Some p \<and>
      (\<forall>c\<in>set (commands p). (\<forall>w\<in>set (words c). no_adjacent_text (parts w)) \<and>
          (\<forall>r\<in>set (redirections c). no_adjacent_text (parts (target r)))))"
proof -
  from parse_summary [of input] obtain toks cs sp where
    s: "parse input = Some \<lparr>commands = cs, pspan = sp\<rparr>"
    "\<forall>c\<in>set cs. merged_parts (words c) (redirections c)" by blast
  then show ?thesis by (auto simp: splitWordIntoParts_no_adjacent merged_parts_def)
qed

text \<open>
  The theorem at the word \<^verbatim>\<open>a"b"\<close>, whose two literal runs are merged into one text part.
\<close>

theorem no_adjacent_text_parts_witness:
  "splitWordIntoParts (''a'' @ [DQ] @ ''b'' @ [DQ]) 0 = [Text ''ab'' (makeSpan 0 3)]
   \<and> no_adjacent_text (splitWordIntoParts (''a'' @ [DQ] @ ''b'' @ [DQ]) 0)
   \<and> (\<exists>p. parse (''a'' @ [DQ] @ ''b'' @ [DQ]) = Some p \<and>
      (\<forall>c\<in>set (commands p). (\<forall>w\<in>set (words c). no_adjacent_text (parts w)) \<and>
          (\<forall>r\<in>set (redirections c). no_adjacent_text (parts (target r)))))"
proof -
  have "splitWordIntoParts (''a'' @ [DQ] @ ''b'' @ [DQ]) 0 = [Text ''ab'' (makeSpan 0 3)]"
    by code_simp
  with no_adjacent_text_parts [of "''a'' @ [DQ] @ ''b'' @ [DQ]" 0 "''a'' @ [DQ] @ ''b'' @ [DQ]"]
  show ?thesis by blast
qed

subsection \<open>Recovery and termination\<close>



text \<open>
  Claim C9. For every input \<open>lex_input\<close> returns a token sequence that ends with the end token, whose
  span is \<open>[len, len]\<close> for the length \<open>len\<close> of the input, and that has no other end token; and
  \<open>parse\<close> returns a pipeline. Both are so for an input with an unterminated quote as well.
  (\<open>lex_input\<close> is a total function, its loops end because the unread input gets shorter; the loops of
  \<open>parse\<close> are partial functions, and the theorem says that they return.)
\<close>

theorem lex_parse_terminate:
  "\<exists>toks p. lex_input input = toks @ [\<lparr>kind = EOF, text' = [], start = length input, end' = length input, meta = None\<rparr>]
    \<and> (\<forall>t\<in>set toks. kind t \<noteq> EOF) \<and> parse input = Some p"
proof -
  from parse_summary [of input] obtain toks cs sp where
    s: "lex_input input = toks @ [eofToken (length input)]" "tokens_cover toks (top_level input)"
    "parse input = Some \<lparr>commands = cs, pspan = sp\<rparr>" by blast
  from s(2) have "\<forall>t\<in>set toks. kind t \<noteq> EOF" by (rule tokens_cover_no_EOF)
  with s(1,3) show ?thesis by (auto simp: eofToken_def)
qed

text \<open>The theorem at the input \<^verbatim>\<open>echo "abc\<close>, whose quote is not closed.\<close>

theorem lex_parse_terminate_witness:
  "map kind (lex_input (''echo '' @ [DQ] @ ''abc'')) = [Word, Word, EOF]
   \<and> (\<exists>toks p. lex_input (''echo '' @ [DQ] @ ''abc'') =
          toks @ [\<lparr>kind = EOF, text' = [], start = 9, end' = 9, meta = None\<rparr>]
        \<and> (\<forall>t\<in>set toks. kind t \<noteq> EOF) \<and> parse (''echo '' @ [DQ] @ ''abc'') = Some p)"
proof -
  have k: "map kind (lex_input (''echo '' @ [DQ] @ ''abc'')) = [Word, Word, EOF]"
    by code_simp
  have len: "length (''echo '' @ [DQ] @ ''abc'') = 9" by simp
  from lex_parse_terminate [of "''echo '' @ [DQ] @ ''abc''", unfolded len] k
  show ?thesis by blast
qed



end
